theory Spec2Isabelle
  imports Main "HOL-Library.Product_Lexorder" "HOL-Library.AList" "HOL-Library.Multiset"
    "HOL-Library.Sublist"
begin

section \<open>Data model of the auction plugin\<close>

text \<open>
  Times are \<open>datetime\<close> values; they are modelled as integers counting microseconds,
  the resolution of \<open>datetime\<close> and \<open>timedelta\<close>.
\<close>

type_synonym time = int

definition seconds :: "int \<Rightarrow> int" where
  "seconds n = n * 1000000"

text \<open>
  Class \<open>AuctionItem\<close>. Its field \<open>item\<close> (the name of the item) is called
  \<open>item_name\<close> here, since \<open>RunningAuction\<close> has a field \<open>item\<close> too.
\<close>

record AuctionItem =
  item_name :: string
  quantity :: int
  added_by :: string

datatype Status = Running | Stopped | Finished

datatype BidderRank = Raider | Alt | Recruit | Member

text \<open>Class \<open>Bid\<close>; its field \<open>id\<close> is called \<open>bid_id\<close>.\<close>

record Bid =
  bidder :: string
  rank :: BidderRank
  bid :: int
  bid_id :: int

record AuctionResults =
  winners :: "Bid list"
  tied :: "Bid list"
  rolled :: int

text \<open>
  Modelled from the spec: the class \<open>CharacterDKP\<close> of the provider module, which the
  auction code only constructs by \<open>CharacterDKP(name=bidder)\<close> and reads through
  \<open>current\<close>. A bidder absent from the balance snapshot has a balance of 0.
\<close>

record CharacterDKP =
  name :: string
  current :: int

definition CharacterDKP_new :: "string \<Rightarrow> CharacterDKP" where
  "CharacterDKP_new n = \<lparr>name = n, current = 0\<rparr>"

type_synonym dkp_map = "string \<rightharpoonup> CharacterDKP"

text \<open>\<open>dkp.get(bidder, CharacterDKP(name=bidder))\<close>\<close>

definition dkp_get :: "dkp_map \<Rightarrow> string \<Rightarrow> CharacterDKP" where
  "dkp_get dkp b = (case dkp b of Some d \<Rightarrow> d | None \<Rightarrow> CharacterDKP_new b)"

text \<open>
  The bid set of an auction is a Python \<open>set\<close>; it is modelled as the list of its
  elements in iteration order, without repetition. Python fixes no iteration order, so
  every property below is proved for an arbitrary list.
\<close>

record RunningAuction =
  item :: AuctionItem
  status :: Status
  started_at :: time
  last_bid :: "time option"
  last_updated :: "time option"
  bids :: "Bid list"
  results :: "AuctionResults option"

text \<open>
  The content of a message. The source builds strings, some of them by formatting
  numbers, results and durations; the formatted ones are kept as the values that are
  formatted.
\<close>

datatype Content =
    Str string
  | AboveMaximum int
  | BelowMinimum int
  | NotIncrement int
  | NotEnoughDkp
  | HasBid string int
  | AuctionClosed AuctionResults
  | UpdateFor AuctionItem int AuctionResults
  | AuctionStopped AuctionItem
  | AuctionAccepted AuctionResults
  | ReopeningBids AuctionItem int
  | RestartingBids AuctionItem int
  | AuctionDeleted AuctionItem
  | StartingBid AuctionItem int

record AuctionMessage =
  channel :: string
  message :: Content
  hidden :: bool

section \<open>Bid validation\<close>

definition validate_bid ::
  "string \<Rightarrow> int \<Rightarrow> Bid list \<Rightarrow> dkp_map \<Rightarrow> int \<Rightarrow> int \<Rightarrow> int \<Rightarrow> bool \<times> Content" where
  "validate_bid bidder' bid_amount bs dkp valuable_threshold minimum maximum =
     (let bidder_dkp = dkp_get dkp bidder';
          early =
            (if bid_amount > maximum then Some (False, AboveMaximum maximum)
             else if bid_amount < minimum then Some (False, BelowMinimum minimum)
             else if current bidder_dkp = bid_amount then None
             else if bid_amount \<in> bid ` set bs then None
             else if bid_amount \<ge> valuable_threshold \<and> bid_amount mod 5 \<noteq> 0
               then Some (False, NotIncrement valuable_threshold)
             else None)
      in case early of
           Some r \<Rightarrow> r
         | None \<Rightarrow>
             if bid_amount > current bidder_dkp then (False, NotEnoughDkp)
             else (True, Str ''''))"

section \<open>Determining the results\<close>

text \<open>
  \<open>_bid_key\<close>: the sort key of a bid, a tuple compared lexicographically.
\<close>

definition bid_key :: "dkp_map \<Rightarrow> int \<Rightarrow> Bid \<Rightarrow> int \<times> int \<times> int" where
  "bid_key dkp member_treshold b =
     (if bid b \<ge> member_treshold \<and> rank b = Raider then 1 else 0,
      bid b,
      current (dkp_get dkp (bidder b)))"

text \<open>
  \<open>sorted(xs, key=f, reverse=True)\<close>: Python's sort is stable, and with
  \<open>reverse=True\<close> it reverses the list, sorts it ascending and reverses the result, so
  that elements with equal keys keep their original order.
\<close>

definition sorted_reverse :: "('a \<Rightarrow> 'k::linorder) \<Rightarrow> 'a list \<Rightarrow> 'a list" where
  "sorted_reverse f xs = rev (sort_key f (rev xs))"

text \<open>\<open>_filter_bids\<close>: the generator keeps the first bid of every (bidder, id) pair.\<close>

fun filter_bids_from :: "(string \<times> int) set \<Rightarrow> Bid list \<Rightarrow> Bid list" where
  "filter_bids_from seen [] = []"
| "filter_bids_from seen (b # bs) =
     (let key = (bidder b, bid_id b)
      in if key \<notin> seen then b # filter_bids_from (insert key seen) bs
         else filter_bids_from seen bs)"

definition filter_bids :: "Bid list \<Rightarrow> Bid list" where
  "filter_bids bs = filter_bids_from {} bs"

text \<open>\<open>itertools.groupby\<close>: the maximal runs of consecutive elements with equal keys.\<close>

function groupby :: "('a \<Rightarrow> 'k) \<Rightarrow> 'a list \<Rightarrow> 'a list list" where
  "groupby f [] = []"
| "groupby f (x # xs) =
     (x # takeWhile (\<lambda>y. f y = f x) xs) # groupby f (dropWhile (\<lambda>y. f y = f x) xs)"
  by pat_completeness auto
termination
  by (relation "measure (\<lambda>(f, xs). length xs)") (auto simp: length_dropWhile_le less_Suc_eq_le)

text \<open>
  The loop of \<open>determine_results\<close> over the groups, with the variables \<open>need\<close> and
  \<open>winners\<close> it updates; it returns \<open>winners\<close>, \<open>tied\<close> and \<open>need\<close> as they are
  when the loop is left.
\<close>

fun award :: "Bid list list \<Rightarrow> int \<Rightarrow> Bid list \<Rightarrow> Bid list \<times> Bid list \<times> int" where
  "award [] need ws = (ws, [], need)"
| "award (g # gs) need ws =
     (if int (length g) \<le> need then
        (let ws' = ws @ g; need' = need - int (length g)
         in if need' = 0 then (ws', [], need') else award gs need' ws')
      else (ws, g, need))"

definition determine_results :: "RunningAuction \<Rightarrow> dkp_map \<Rightarrow> int \<Rightarrow> AuctionResults" where
  "determine_results auction dkp member_treshold =
     (let need = quantity (item auction);
          all_bids = filter_bids (sorted_reverse (bid_key dkp member_treshold) (bids auction));
          (ws, ts, need') = award (groupby (bid_key dkp member_treshold) all_bids) need [];
          rolled' = (if need' \<noteq> 0 then need' else 0)
      in \<lparr>winners = ws, tied = ts, rolled = rolled'\<rparr>)"

subsection \<open>Notions for the properties of the results\<close>

text \<open>
  \<open>above f xs ys\<close>: every element of \<open>xs\<close> has a larger key than every element of
  \<open>ys\<close>; \<open>same_key f xs\<close>: the elements of \<open>xs\<close> have one key; \<open>chain f gs\<close>: the
  groups \<open>gs\<close> are non-empty, of one key each, with strictly decreasing keys.
\<close>

definition above :: "('a \<Rightarrow> 'k::linorder) \<Rightarrow> 'a list \<Rightarrow> 'a list \<Rightarrow> bool" where
  "above f xs ys = (\<forall>x\<in>set xs. \<forall>y\<in>set ys. f y < f x)"

definition same_key :: "('a \<Rightarrow> 'k) \<Rightarrow> 'a list \<Rightarrow> bool" where
  "same_key f xs = (\<forall>x\<in>set xs. \<forall>y\<in>set xs. f x = f y)"

fun chain :: "('a \<Rightarrow> 'k::linorder) \<Rightarrow> 'a list list \<Rightarrow> bool" where
  "chain f [] = True"
| "chain f (g # gs) =
     (g \<noteq> [] \<and> same_key f g \<and> above f g (concat gs) \<and> chain f gs)"

text \<open>
  \<open>settled f need W T rest\<close>: the bids \<open>W\<close> are whole groups that exhaust at most
  the need, each above what follows; \<open>T\<close> is one whole group, above \<open>rest\<close>, that
  exceeds a need still left; and when \<open>T\<close> is empty, either no bid is left or the
  bids \<open>W\<close> have met the need.
\<close>

definition settled :: "('a \<Rightarrow> 'k::linorder) \<Rightarrow> int \<Rightarrow> 'a list \<Rightarrow> 'a list \<Rightarrow> 'a list \<Rightarrow> bool" where
  "settled f need W T rest =
     (above f W (T @ rest) \<and> same_key f T \<and> above f T rest
      \<and> int (length W) \<le> max 0 need
      \<and> (T \<noteq> [] \<longrightarrow> need - int (length W) < int (length T) \<and> (need \<noteq> 0 \<longrightarrow> int (length W) \<noteq> need))
      \<and> (T = [] \<longrightarrow> rest = [] \<or> (int (length W) = need \<and> W \<noteq> [])))"

text \<open>The pair by which \<open>_filter_bids\<close> identifies a bid.\<close>

definition pair_of :: "Bid \<Rightarrow> string \<times> int" where
  "pair_of b = (bidder b, bid_id b)"

section \<open>Timing\<close>

text \<open>
  The properties \<open>time_left\<close> and \<open>needs_update\<close> read the clock once; the reading
  is the argument \<open>now\<close>.
\<close>

definition time_left :: "RunningAuction \<Rightarrow> time \<Rightarrow> int" where
  "time_left a now =
     (let end0 = started_at a + seconds 90;
          end1 = (case last_bid a of
                    None \<Rightarrow> end0
                  | Some lb \<Rightarrow>
                      (let bid_end = lb + seconds 30
                       in if bid_end > end0 then bid_end else end0));
          end2 = (case last_updated a of
                    None \<Rightarrow> end1
                  | Some lu \<Rightarrow>
                      if (case last_bid a of None \<Rightarrow> True | Some lb \<Rightarrow> lu > lb) then
                        (let updated_end = lu + seconds 15
                         in if updated_end > end1 then updated_end else end1)
                      else end1);
          end3 = (if (case last_updated a of
                        None \<Rightarrow> True
                      | Some lu \<Rightarrow> (case last_bid a of None \<Rightarrow> False | Some lb \<Rightarrow> lu < lb))
                  then
                    (let updated_end = now + seconds 15
                     in if updated_end > end2 then updated_end else end2)
                  else end2)
      in if end3 > now then end3 - now else 0)"

text \<open>
  \<open>total_seconds()\<close> is the number of microseconds divided by \<open>10**6\<close> as a float; for
  a whole number of microseconds the result exceeds 30 (or 10) exactly when the number
  of microseconds exceeds that of 30 (or 10) seconds, which is what is compared here.
\<close>

definition needs_update :: "RunningAuction \<Rightarrow> time \<Rightarrow> bool" where
  "needs_update a now =
     (if status a \<noteq> Running then False
      else if now - started_at a > seconds 30
              \<and> (case last_bid a of None \<Rightarrow> True | Some lb \<Rightarrow> now - lb > seconds 10)
              \<and> (case last_updated a of None \<Rightarrow> True | Some lu \<Rightarrow> now - lu > seconds 30)
        then True
      else False)"

section \<open>The auctioneer\<close>

text \<open>
  Class \<open>AuctionLimits\<close> of the configuration; its field \<open>member\<close> is called
  \<open>member_limit\<close>.
\<close>

record AuctionLimits =
  valuable :: int
  member_limit :: int
  minimum :: int
  maximum :: int

text \<open>
  The state of an \<open>Auctioneer\<close>. The dictionary \<open>_channels\<close> is iterated by
  \<open>run\<close>, so it is an association list in insertion order.
\<close>

record Auctioneer =
  pending_items :: "AuctionItem list"
  channels :: "(string \<times> RunningAuction option) list"
  limits :: AuctionLimits
  dkp :: dkp_map

text \<open>\<open>RunningAuction(item=item)\<close>, created when the clock reads \<open>now\<close>.\<close>

definition RunningAuction_new :: "AuctionItem \<Rightarrow> time \<Rightarrow> RunningAuction" where
  "RunningAuction_new it now =
     \<lparr>item = it, status = Running, started_at = now, last_bid = None,
      last_updated = None, bids = [], results = None\<rparr>"

text \<open>
  \<open>bids.add(bid)\<close>: a bid already in the set leaves it as it is; a new one appears
  somewhere in the iteration order, at the position \<open>slot\<close>.
\<close>

definition set_add :: "nat \<Rightarrow> Bid \<Rightarrow> Bid list \<Rightarrow> Bid list" where
  "set_add slot b bs = (if b \<in> set bs then bs else take slot bs @ b # drop slot bs)"

text \<open>
  \<open>Auctioneer.__init__\<close>: the dictionary comprehension keeps each channel once, at its
  first position.
\<close>

definition Auctioneer_init :: "string list \<Rightarrow> AuctionLimits \<Rightarrow> Auctioneer" where
  "Auctioneer_init chans lims =
     \<lparr>pending_items = [],
      channels = map (\<lambda>c. (c, None)) (rev (remdups (rev chans))),
      limits = lims,
      dkp = Map.empty\<rparr>"

definition Auctioneer_add :: "Auctioneer \<Rightarrow> AuctionItem \<Rightarrow> Auctioneer" where
  "Auctioneer_add self it = self\<lparr>pending_items := pending_items self @ [it]\<rparr>"

text \<open>
  \<open>update_dkp\<close> empties \<open>_dkp\<close> and fills it from its argument, a snapshot that
  the caller has just fetched (a mapping other than \<open>_dkp\<close> itself).
\<close>

definition Auctioneer_update_dkp :: "Auctioneer \<Rightarrow> dkp_map \<Rightarrow> Auctioneer" where
  "Auctioneer_update_dkp self d = self\<lparr>dkp := d\<rparr>"

text \<open>
  The decorator \<open>check_auction_channels\<close>: the wrapped method runs only on a channel
  that holds an auction, which it then reads from \<open>_channels\<close>.
\<close>

definition check_auction_channels ::
  "Auctioneer \<Rightarrow> string \<Rightarrow> (RunningAuction \<Rightarrow> AuctionMessage list \<times> Auctioneer)
     \<Rightarrow> AuctionMessage list \<times> Auctioneer" where
  "check_auction_channels self ch fn =
     (case map_of (channels self) ch of
        None \<Rightarrow>
          ([\<lparr>channel = ch, message = Str ''This isn't an auction channel. Try Again.'',
             hidden = True\<rparr>], self)
      | Some None \<Rightarrow>
          ([\<lparr>channel = ch, message = Str ''There isn't an active auction in this channel.'',
             hidden = True\<rparr>], self)
      | Some (Some auction) \<Rightarrow> fn auction)"

text \<open>
  The decorator \<open>check_auction_status\<close>: the first status of the dictionary that is
  the auction's status yields its message and returns.
\<close>

fun check_auction_status ::
  "(Status \<times> string) list \<Rightarrow> Auctioneer \<Rightarrow> string \<Rightarrow> RunningAuction
     \<Rightarrow> AuctionMessage list \<times> Auctioneer \<Rightarrow> AuctionMessage list \<times> Auctioneer" where
  "check_auction_status [] self ch auction body = body"
| "check_auction_status ((st, m) # statuses) self ch auction body =
     (if status auction = st
        then ([\<lparr>channel = ch, message = Str m, hidden = True\<rparr>], self)
      else check_auction_status statuses self ch auction body)"

text \<open>The auction object is mutated in place; the model stores it back in its channel.\<close>

definition store :: "Auctioneer \<Rightarrow> string \<Rightarrow> RunningAuction option \<Rightarrow> Auctioneer" where
  "store self ch v = self\<lparr>channels := AList.update ch v (channels self)\<rparr>"

definition bid_statuses :: "(Status \<times> string) list" where
  "bid_statuses =
     [(Finished, ''This auction has already closed and is waiting on and officer to accept the results.''),
      (Stopped, ''This auction has been stopped and is not accepting bids at the moment.'')]"

definition Auctioneer_bid ::
  "time \<Rightarrow> nat \<Rightarrow> Auctioneer \<Rightarrow> string \<Rightarrow> string \<Rightarrow> int \<Rightarrow> int \<Rightarrow> BidderRank
     \<Rightarrow> AuctionMessage list \<times> Auctioneer" where
  "Auctioneer_bid now slot self ch bidder' bid_amount bid_id' rank' =
     check_auction_channels self ch (\<lambda>auction.
       check_auction_status bid_statuses self ch auction
         (let (valid, error) =
                validate_bid bidder' bid_amount (bids auction) (dkp self)
                  (valuable (limits self)) (minimum (limits self)) (maximum (limits self))
          in if \<not> valid then ([\<lparr>channel = ch, message = error, hidden = True\<rparr>], self)
             else
               (let b = \<lparr>bidder = bidder', rank = rank', bid = bid_amount, bid_id = bid_id'\<rparr>;
                    auction' = auction\<lparr>bids := set_add slot b (bids auction),
                                       last_bid := Some now\<rparr>
                in ([\<lparr>channel = ch, message = Str ''Bid Accepted!'', hidden = True\<rparr>,
                     \<lparr>channel = ch, message = HasBid (bidder b) (bid b), hidden = False\<rparr>],
                    store self ch (Some auction')))))"

definition stop_statuses :: "(Status \<times> string) list" where
  "stop_statuses =
     [(Finished, ''This auction has finished already and cannot be stopped.''),
      (Stopped, ''This auction is already stopped.'')]"

definition Auctioneer_stop :: "Auctioneer \<Rightarrow> string \<Rightarrow> AuctionMessage list \<times> Auctioneer" where
  "Auctioneer_stop self ch =
     check_auction_channels self ch (\<lambda>auction.
       check_auction_status stop_statuses self ch auction
         (let auction' = auction\<lparr>status := Stopped\<rparr>
          in ([\<lparr>channel = ch, message = Str ''Auction has been stopped'', hidden = True\<rparr>,
               \<lparr>channel = ch, message = AuctionStopped (item auction'), hidden = False\<rparr>],
              store self ch (Some auction'))))"

definition accept_statuses :: "(Status \<times> string) list" where
  "accept_statuses =
     [(Running, ''This auction has not finished and cannot be accepted yet.''),
      (Stopped, ''This auction has not finished and cannot be accepted yet.'')]"

definition Auctioneer_accept ::
  "Auctioneer \<Rightarrow> string \<Rightarrow> bool \<Rightarrow> AuctionMessage list \<times> Auctioneer" where
  "Auctioneer_accept self ch force =
     check_auction_channels self ch (\<lambda>auction.
       check_auction_status accept_statuses self ch auction
         (let res = determine_results auction (dkp self) (member_limit (limits self))
          in if \<not> force \<and> results auction \<noteq> Some res then
               ([\<lparr>channel = ch,
                  message = Str ''This auction has not been accepted because the results have changed since it closed.'',
                  hidden = True\<rparr>], self)
             else
               ([\<lparr>channel = ch, message = Str ''Auction Accepted'', hidden = True\<rparr>,
                 \<lparr>channel = ch, message = AuctionAccepted res, hidden = False\<rparr>], self)))"

definition reopen_statuses :: "(Status \<times> string) list" where
  "reopen_statuses =
     [(Running, ''This auction has not finished and cannot be reopened yet.'')]"

text \<open>
  \<open>reopen\<close> reads the clock for \<open>started_at\<close> (\<open>now\<close>) and again for the time left
  of its message (\<open>now'\<close>); so do \<open>restart\<close> and \<open>next\<close>.
\<close>

definition Auctioneer_reopen ::
  "time \<Rightarrow> time \<Rightarrow> Auctioneer \<Rightarrow> string \<Rightarrow> AuctionMessage list \<times> Auctioneer" where
  "Auctioneer_reopen now now' self ch =
     check_auction_channels self ch (\<lambda>auction.
       check_auction_status reopen_statuses self ch auction
         (let auction' = auction\<lparr>results := None, started_at := now, last_updated := None,
                                  last_bid := None, status := Running\<rparr>
          in ([\<lparr>channel = ch, message = Str ''Reopening Bidding'', hidden = True\<rparr>,
               \<lparr>channel = ch, message = ReopeningBids (item auction') (time_left auction' now'),
                hidden = False\<rparr>],
              store self ch (Some auction'))))"

definition Auctioneer_restart ::
  "time \<Rightarrow> time \<Rightarrow> Auctioneer \<Rightarrow> string \<Rightarrow> AuctionMessage list \<times> Auctioneer" where
  "Auctioneer_restart now now' self ch =
     check_auction_channels self ch (\<lambda>auction.
       (let it = item auction;
            auction' = RunningAuction_new it now
        in ([\<lparr>channel = ch, message = Str ''Restarted Auction'', hidden = True\<rparr>,
             \<lparr>channel = ch, message = RestartingBids it (time_left auction' now'),
              hidden = False\<rparr>],
            store self ch (Some auction'))))"

definition Auctioneer_delete :: "Auctioneer \<Rightarrow> string \<Rightarrow> AuctionMessage list \<times> Auctioneer" where
  "Auctioneer_delete self ch =
     check_auction_channels self ch (\<lambda>auction.
       ([\<lparr>channel = ch, message = Str ''Auction Deleted'', hidden = True\<rparr>,
         \<lparr>channel = ch, message = AuctionDeleted (item auction), hidden = False\<rparr>],
        store self ch None))"

text \<open>
  The clock readings \<open>run\<close> makes while it handles one auction: in \<open>time_left\<close> of
  the closing check, in \<open>needs_update\<close>, for \<open>last_updated\<close>, and in \<open>time_left\<close>
  of the update message.
\<close>

record RunClock =
  at_time_left :: time
  at_needs_update :: time
  at_last_updated :: time
  at_message :: time

text \<open>The body of the loop of \<open>run\<close> for a channel that holds an auction.\<close>

definition run_auction ::
  "RunClock \<Rightarrow> dkp_map \<Rightarrow> int \<Rightarrow> string \<Rightarrow> RunningAuction
     \<Rightarrow> AuctionMessage list \<times> RunningAuction" where
  "run_auction clk d member_treshold ch auction =
     (let (ms1, a1) =
            (if time_left auction (at_time_left clk) = 0 \<and> status auction = Running then
               (let a = auction\<lparr>status := Finished\<rparr>;
                    res = determine_results a d member_treshold
                in ([\<lparr>channel = ch, message = AuctionClosed res, hidden = False\<rparr>],
                    a\<lparr>results := Some res\<rparr>))
             else ([], auction));
          (ms2, a2) =
            (if needs_update a1 (at_needs_update clk) then
               (let a = a1\<lparr>last_updated := Some (at_last_updated clk)\<rparr>;
                    res = determine_results a d member_treshold
                in ([\<lparr>channel = ch,
                       message = UpdateFor (item a) (time_left a (at_message clk)) res,
                       hidden = False\<rparr>], a))
             else ([], a1))
      in (ms1 @ ms2, a2))"

fun run_channels ::
  "(string \<Rightarrow> RunClock) \<Rightarrow> dkp_map \<Rightarrow> int \<Rightarrow> (string \<times> RunningAuction option) list
     \<Rightarrow> AuctionMessage list \<times> (string \<times> RunningAuction option) list" where
  "run_channels clock d m [] = ([], [])"
| "run_channels clock d m ((ch, None) # rest) =
     (let (ms, rest') = run_channels clock d m rest in (ms, (ch, None) # rest'))"
| "run_channels clock d m ((ch, Some auction) # rest) =
     (let (ms1, auction') = run_auction (clock ch) d m ch auction;
          (ms, rest') = run_channels clock d m rest
      in (ms1 @ ms, (ch, Some auction') # rest'))"

definition Auctioneer_run ::
  "(string \<Rightarrow> RunClock) \<Rightarrow> Auctioneer \<Rightarrow> AuctionMessage list \<times> Auctioneer" where
  "Auctioneer_run clock self =
     (let (ms, chs) = run_channels clock (dkp self) (member_limit (limits self)) (channels self)
      in (ms, self\<lparr>channels := chs\<rparr>))"

text \<open>
  The loop of \<open>next\<close>. \<open>random.choice\<close> takes the element at a random index of the
  list of free channels; \<open>pick i\<close> is the random number of iteration \<open>i\<close>, and
  \<open>clock i\<close> the two clock readings of that iteration.
\<close>

fun next_loop ::
  "(nat \<Rightarrow> nat) \<Rightarrow> (nat \<Rightarrow> time \<times> time) \<Rightarrow> nat \<Rightarrow> AuctionItem list
     \<Rightarrow> (string \<times> RunningAuction option) list
     \<Rightarrow> AuctionMessage list \<times> AuctionItem list \<times> (string \<times> RunningAuction option) list" where
  "next_loop pick clock i [] chs = ([], [], chs)"
| "next_loop pick clock i (it # pending) chs =
     (let free = map fst (filter (\<lambda>(c, a). a = None) chs)
      in if free = [] then ([], it # pending, chs)
         else
           (let ch = free ! (pick i mod length free);
                auction = RunningAuction_new it (fst (clock i));
                chs' = AList.update ch (Some auction) chs;
                (ms, pending', chs'') = next_loop pick clock (Suc i) pending chs'
            in (\<lparr>channel = ch,
                  message = StartingBid it (time_left auction (snd (clock i))),
                  hidden = False\<rparr> # ms, pending', chs'')))"

definition Auctioneer_next ::
  "(nat \<Rightarrow> nat) \<Rightarrow> (nat \<Rightarrow> time \<times> time) \<Rightarrow> Auctioneer \<Rightarrow> AuctionMessage list \<times> Auctioneer" where
  "Auctioneer_next pick clock self =
     (let (ms, pending, chs) = next_loop pick clock 0 (pending_items self) (channels self)
      in (ms, self\<lparr>pending_items := pending, channels := chs\<rparr>))"

subsection \<open>Calls of the auctioneer as steps\<close>

text \<open>
  One call of a method of the auctioneer, with the clock readings and random numbers
  the call uses.
\<close>

datatype Call =
    Add AuctionItem
  | UpdateDkp dkp_map
  | Run "string \<Rightarrow> RunClock"
  | PlaceBid time nat string string int int BidderRank
  | Stop string
  | Accept string bool
  | Reopen time time string
  | Restart time time string
  | Delete string
  | Next "nat \<Rightarrow> nat" "nat \<Rightarrow> time \<times> time"

fun step :: "Call \<Rightarrow> Auctioneer \<Rightarrow> AuctionMessage list \<times> Auctioneer" where
  "step (Add it) self = ([], Auctioneer_add self it)"
| "step (UpdateDkp d) self = ([], Auctioneer_update_dkp self d)"
| "step (Run clock) self = Auctioneer_run clock self"
| "step (PlaceBid now slot ch b amount i r) self = Auctioneer_bid now slot self ch b amount i r"
| "step (Stop ch) self = Auctioneer_stop self ch"
| "step (Accept ch force) self = Auctioneer_accept self ch force"
| "step (Reopen now now' ch) self = Auctioneer_reopen now now' self ch"
| "step (Restart now now' ch) self = Auctioneer_restart now now' self ch"
| "step (Delete ch) self = Auctioneer_delete self ch"
| "step (Next pick clock) self = Auctioneer_next pick clock self"

text \<open>The states an auctioneer reaches from its creation by any sequence of calls.\<close>

inductive reachable :: "Auctioneer \<Rightarrow> bool" where
  init: "reachable (Auctioneer_init chans lims)"
| call: "reachable s \<Longrightarrow> reachable (snd (step c s))"

text \<open>The auction held by a channel, if the channel exists and holds one.\<close>

definition auction_in :: "Auctioneer \<Rightarrow> string \<Rightarrow> RunningAuction option" where
  "auction_in self ch = (case map_of (channels self) ch of Some (Some a) \<Rightarrow> Some a | _ \<Rightarrow> None)"

subsection \<open>Example values\<close>

text \<open>Concrete items, bids, balances and states, on which the theorems are instantiated.\<close>

definition sword :: "nat \<Rightarrow> AuctionItem" where
  "sword q = \<lparr>item_name = ''Sword'', quantity = int q, added_by = ''gm''\<rparr>"

definition mk_bid :: "string \<Rightarrow> BidderRank \<Rightarrow> int \<Rightarrow> Bid" where
  "mk_bid n r amount = \<lparr>bidder = n, rank = r, bid = amount, bid_id = 0\<rparr>"

definition balances :: "(string \<times> int) list \<Rightarrow> dkp_map" where
  "balances xs = map_of (map (\<lambda>(n, c). (n, \<lparr>name = n, current = c\<rparr>)) xs)"

definition demo_limits :: AuctionLimits where
  "demo_limits = \<lparr>valuable = 50, member_limit = 10, minimum = 1, maximum = 1000\<rparr>"

definition demo_auction :: "Status \<Rightarrow> Bid list \<Rightarrow> AuctionResults option \<Rightarrow> RunningAuction" where
  "demo_auction st bs res =
     \<lparr>item = sword 1, status = st, started_at = 0, last_bid = None, last_updated = None,
      bids = bs, results = res\<rparr>"

definition demo_state :: "RunningAuction \<Rightarrow> Auctioneer" where
  "demo_state a =
     \<lparr>pending_items = [], channels = [(''c1'', Some a), (''c2'', None)],
      limits = demo_limits,
      dkp = balances [(''alice'', 200), (''bob'', 200)]\<rparr>"

text \<open>The cached results are present exactly when the auction is Finished.\<close>

definition results_match :: "RunningAuction \<Rightarrow> bool" where
  "results_match a = ((results a \<noteq> None) = (status a = Finished))"

text \<open>
  A clock that reads 100 seconds, an auction updated after 40 seconds, and a sequence of
  calls that starts an auction, updates it and closes it.
\<close>

definition closing_clock :: "string \<Rightarrow> RunClock" where
  "closing_clock ch =
     \<lparr>at_time_left = seconds 100, at_needs_update = seconds 100,
      at_last_updated = seconds 100, at_message = seconds 100\<rparr>"

definition updated_auction :: RunningAuction where
  "updated_auction = (demo_auction Running [] None)\<lparr>last_updated := Some (seconds 40)\<rparr>"

definition demo_run :: "Call list" where
  "demo_run =
     [Add (sword 1),
      Next (\<lambda>i. 0) (\<lambda>i. (0, 0)),
      Run (\<lambda>ch. \<lparr>at_time_left = seconds 40, at_needs_update = seconds 40,
                  at_last_updated = seconds 40, at_message = seconds 40\<rparr>),
      Run closing_clock]"

definition after :: "Call list \<Rightarrow> Auctioneer \<Rightarrow> Auctioneer" where
  "after cs s = fold (\<lambda>c s. snd (step c s)) cs s"

text \<open>
  Two successive calls of \<open>bid\<close> by the same bidder with the same id: 100 first, then 50.
\<close>

definition first_bid :: "AuctionMessage list \<times> Auctioneer" where
  "first_bid =
     Auctioneer_bid (seconds 10) 0 (demo_state (demo_auction Running [] None))
       ''c1'' ''alice'' 100 0 Raider"

definition second_bid :: "AuctionMessage list \<times> Auctioneer" where
  "second_bid = Auctioneer_bid (seconds 20) 0 (snd first_bid) ''c1'' ''alice'' 50 0 Raider"

text \<open>
  An auction of one item with two equal bids, one of three items with bids of 100, 90, 80
  and 80, and one with two bids of the same bidder and id.
\<close>

definition tie_auction :: RunningAuction where
  "tie_auction = demo_auction Running [mk_bid ''alice'' Raider 50, mk_bid ''bob'' Raider 50] None"

definition four_bids_auction :: RunningAuction where
  "four_bids_auction =
     (demo_auction Running
        [mk_bid ''cat'' Alt 80, mk_bid ''ann'' Alt 100, mk_bid ''dan'' Alt 80, mk_bid ''ben'' Alt 90]
        None)\<lparr>item := sword 3\<rparr>"

definition two_bids_auction :: RunningAuction where
  "two_bids_auction =
     demo_auction Running [mk_bid ''alice'' Raider 50, mk_bid ''alice'' Raider 100] None"

text \<open>End of the definitions.\<close>

section \<open>Properties of bid validation\<close>

text \<open>
  C3: \<open>validate_bid\<close> checks its rules in order and stops at the first failure: an
  amount above the maximum is rejected; then an amount below the minimum is rejected;
  then, unless the amount equals the bidder's whole current balance or the amount of an
  existing bid, an amount at or above the valuable threshold that is not a multiple of 5
  is rejected with the increments-of-5 reason; finally an amount above the bidder's
  current balance is rejected with the not-enough-points reason, and every other amount
  is accepted. In particular an all-in or echo bid between minimum and maximum is never
  rejected for granularity, whatever its remainder modulo 5.
\<close>

theorem validate_bid_rules:
  "validate_bid b a bs d v mn mx =
     (if a > mx then (False, AboveMaximum mx)
      else if a < mn then (False, BelowMinimum mn)
      else if \<not> (a = current (dkp_get d b) \<or> a \<in> bid ` set bs) \<and> a \<ge> v \<and> a mod 5 \<noteq> 0
        then (False, NotIncrement v)
      else if a > current (dkp_get d b) then (False, NotEnoughDkp)
      else (True, Str ''''))
   \<and> (mn \<le> a \<and> a \<le> mx \<and> (a = current (dkp_get d b) \<or> a \<in> bid ` set bs) \<longrightarrow>
        validate_bid b a bs d v mn mx =
          (if a > current (dkp_get d b) then (False, NotEnoughDkp) else (True, Str '''')))"
  by (auto simp: validate_bid_def Let_def)

theorem validate_bid_rules_witness:
  "validate_bid ''alice'' 53 [] [''alice'' \<mapsto> \<lparr>name = ''alice'', current = 53\<rparr>] 50 1 100
     = (True, Str '''')
   \<and> validate_bid ''bob'' 53 [\<lparr>bidder = ''alice'', rank = Raider, bid = 53, bid_id = 0\<rparr>]
        [''bob'' \<mapsto> \<lparr>name = ''bob'', current = 80\<rparr>] 50 1 100 = (True, Str '''')
   \<and> validate_bid ''bob'' 53 [] [''bob'' \<mapsto> \<lparr>name = ''bob'', current = 80\<rparr>] 50 1 100
        = (False, NotIncrement 50)"
  using validate_bid_rules [of "''alice''" 53 "[]" "[''alice'' \<mapsto> \<lparr>name = ''alice'', current = 53\<rparr>]" 50 1 100]
    validate_bid_rules [of "''bob''" 53 "[\<lparr>bidder = ''alice'', rank = Raider, bid = 53, bid_id = 0\<rparr>]"
        "[''bob'' \<mapsto> \<lparr>name = ''bob'', current = 80\<rparr>]" 50 1 100]
    validate_bid_rules [of "''bob''" 53 "[]" "[''bob'' \<mapsto> \<lparr>name = ''bob'', current = 80\<rparr>]" 50 1 100]
  by (simp add: dkp_get_def)

section \<open>Properties of the timing rules\<close>

text \<open>
  C4: with the timestamps of an auction held fixed, \<open>time_left\<close> is monotonically
  non-increasing in the clock reading (for \<open>now1 \<le> now2\<close> its value at \<open>now2\<close> is at most
  its value at \<open>now1\<close>), and it is never negative.
\<close>

theorem time_left_monotone:
  "(now1 \<le> now2 \<longrightarrow> time_left a now2 \<le> time_left a now1) \<and> 0 \<le> time_left a now"
  by (auto simp: time_left_def Let_def seconds_def split: option.splits)

theorem time_left_monotone_witness:
  "(100 :: int) \<le> 200
   \<and> time_left (demo_auction Running [] None) 200 \<le> time_left (demo_auction Running [] None) 100
   \<and> 0 \<le> time_left (demo_auction Running [] None) 200"
  using time_left_monotone [of 100 200 "demo_auction Running [] None" 200]
  by simp

text \<open>
  C9, as the code has it: \<open>needs_update\<close> is true only while the status is Running, and
  then exactly when the auction started more than 30 seconds ago, the last bid (if any)
  was more than 10 seconds ago and the last update (if any) was more than 30 seconds
  ago, each bound strict; with the status Stopped or Finished it is false whatever the
  timestamps are.
\<close>

theorem needs_update_strict:
  "needs_update a now =
     (status a = Running
      \<and> now - started_at a > seconds 30
      \<and> (\<forall>lb. last_bid a = Some lb \<longrightarrow> now - lb > seconds 10)
      \<and> (\<forall>lu. last_updated a = Some lu \<longrightarrow> now - lu > seconds 30))
   \<and> (status a \<noteq> Running \<longrightarrow> \<not> needs_update a now)"
  by (auto simp: needs_update_def split: option.splits)

theorem needs_update_strict_witness:
  "status (demo_auction Stopped [] None) \<noteq> Running
   \<and> \<not> needs_update (demo_auction Stopped [] None) (seconds 1000)
   \<and> needs_update (demo_auction Running [] None) (seconds 31)"
  using needs_update_strict [of "demo_auction Stopped [] None" "seconds 1000"]
    needs_update_strict [of "demo_auction Running [] None" "seconds 31"]
  by (simp add: demo_auction_def seconds_def)

text \<open>
  C9 as the specification states it, with bounds that include 30 seconds, fails: an
  auction that started exactly 30 seconds ago, with no bid and no update, needs no
  update.
\<close>

theorem needs_update_boundary_counterexample:
  "status (RunningAuction_new \<lparr>item_name = ''Sword'', quantity = 1, added_by = ''gm''\<rparr> 0) = Running
   \<and> seconds 30 - started_at (RunningAuction_new \<lparr>item_name = ''Sword'', quantity = 1, added_by = ''gm''\<rparr> 0) \<ge> seconds 30
   \<and> last_bid (RunningAuction_new \<lparr>item_name = ''Sword'', quantity = 1, added_by = ''gm''\<rparr> 0) = None
   \<and> last_updated (RunningAuction_new \<lparr>item_name = ''Sword'', quantity = 1, added_by = ''gm''\<rparr> 0) = None
   \<and> \<not> needs_update (RunningAuction_new \<lparr>item_name = ''Sword'', quantity = 1, added_by = ''gm''\<rparr> 0) (seconds 30)"
  by (simp add: needs_update_def RunningAuction_new_def seconds_def)

section \<open>Properties of the guarded operations\<close>

lemma check_channels_none:
  "auction_in s ch = None \<Longrightarrow> \<exists>m. check_auction_channels s ch fn = ([\<lparr>channel = ch, message = m, hidden = True\<rparr>], s)"
  by (auto simp: auction_in_def check_auction_channels_def split: option.splits)

lemma check_channels_some:
  "auction_in s ch = Some a \<Longrightarrow> check_auction_channels s ch fn = fn a"
  by (auto simp: auction_in_def check_auction_channels_def split: option.splits)

lemma check_status_hit:
  "status a \<in> fst ` set sts \<Longrightarrow> \<exists>m. check_auction_status sts s ch a body = ([\<lparr>channel = ch, message = m, hidden = True\<rparr>], s)"
  by (induction sts) force+

lemma check_status_miss:
  "status a \<notin> fst ` set sts \<Longrightarrow> check_auction_status sts s ch a body = body"
  by (induction sts) auto

lemma accept_state: "snd (Auctioneer_accept s ch force) = s"
  by (simp add: Auctioneer_accept_def check_auction_channels_def accept_statuses_def Let_def
      split: option.splits)

lemma accept_repeated: "((\<lambda>s. snd (Auctioneer_accept s ch force)) ^^ n) s = s"
  by (induction n) (simp_all add: accept_state)

text \<open>
  C6: on a Finished auction \<open>accept\<close> refuses, with a single hidden notice, exactly when
  \<open>force\<close> is false and the results computed afresh differ from the cached ones, and
  otherwise emits the acceptance messages; in both cases the state of the auctioneer (the
  status, the bids, the timestamps, the cached results and the channel) is what it was,
  so that \<open>accept\<close> may be called any number of times.
\<close>

theorem accept_finished:
  assumes "auction_in s ch = Some a" and "status a = Finished"
  shows "Auctioneer_accept s ch force =
     (if \<not> force \<and> results a \<noteq> Some (determine_results a (dkp s) (member_limit (limits s)))
      then ([\<lparr>channel = ch,
               message = Str ''This auction has not been accepted because the results have changed since it closed.'',
               hidden = True\<rparr>], s)
      else ([\<lparr>channel = ch, message = Str ''Auction Accepted'', hidden = True\<rparr>,
             \<lparr>channel = ch,
              message = AuctionAccepted (determine_results a (dkp s) (member_limit (limits s))),
              hidden = False\<rparr>], s))
     \<and> ((\<lambda>s. snd (Auctioneer_accept s ch force)) ^^ n) s = s"
proof (rule conjI)
  show "Auctioneer_accept s ch force =
     (if \<not> force \<and> results a \<noteq> Some (determine_results a (dkp s) (member_limit (limits s)))
      then ([\<lparr>channel = ch,
               message = Str ''This auction has not been accepted because the results have changed since it closed.'',
               hidden = True\<rparr>], s)
      else ([\<lparr>channel = ch, message = Str ''Auction Accepted'', hidden = True\<rparr>,
             \<lparr>channel = ch,
              message = AuctionAccepted (determine_results a (dkp s) (member_limit (limits s))),
              hidden = False\<rparr>], s))"
    using assms
    by (simp add: Auctioneer_accept_def check_channels_some check_status_miss accept_statuses_def
        Let_def)
  show "((\<lambda>s. snd (Auctioneer_accept s ch force)) ^^ n) s = s"
    by (rule accept_repeated)
qed

theorem accept_finished_witness:
  "auction_in (demo_state (demo_auction Finished [] (Some \<lparr>winners = [], tied = [], rolled = 1\<rparr>))) ''c1''
      = Some (demo_auction Finished [] (Some \<lparr>winners = [], tied = [], rolled = 1\<rparr>))
   \<and> status (demo_auction Finished [] (Some \<lparr>winners = [], tied = [], rolled = 1\<rparr>)) = Finished
   \<and> Auctioneer_accept (demo_state (demo_auction Finished [] (Some \<lparr>winners = [], tied = [], rolled = 1\<rparr>))) ''c1'' False
      = ([\<lparr>channel = ''c1'', message = Str ''Auction Accepted'', hidden = True\<rparr>,
          \<lparr>channel = ''c1'', message = AuctionAccepted \<lparr>winners = [], tied = [], rolled = 1\<rparr>, hidden = False\<rparr>],
         demo_state (demo_auction Finished [] (Some \<lparr>winners = [], tied = [], rolled = 1\<rparr>)))
   \<and> Auctioneer_accept (demo_state (demo_auction Finished [mk_bid ''alice'' Raider 20] (Some \<lparr>winners = [], tied = [], rolled = 1\<rparr>))) ''c1'' False
      = ([\<lparr>channel = ''c1'',
            message = Str ''This auction has not been accepted because the results have changed since it closed.'',
            hidden = True\<rparr>],
         demo_state (demo_auction Finished [mk_bid ''alice'' Raider 20] (Some \<lparr>winners = [], tied = [], rolled = 1\<rparr>)))"
proof -
  let ?r = "\<lparr>winners = [], tied = [], rolled = 1\<rparr>"
  have a1: "auction_in (demo_state (demo_auction Finished bs (Some ?r))) ''c1'' = Some (demo_auction Finished bs (Some ?r))" for bs
    by (simp add: auction_in_def demo_state_def)
  have a2: "status (demo_auction Finished bs (Some ?r)) = Finished" for bs
    by (simp add: demo_auction_def)
  have a3: "results (demo_auction Finished bs (Some ?r)) = Some ?r" for bs
    by (simp add: demo_auction_def)
  have r1: "determine_results (demo_auction Finished [] (Some ?r)) d m = ?r" for d m
    by (simp add: determine_results_def demo_auction_def sword_def sorted_reverse_def filter_bids_def)
  have r2: "determine_results (demo_auction Finished [mk_bid ''alice'' Raider 20] (Some ?r)) d m \<noteq> ?r" for d m
    by (simp add: determine_results_def demo_auction_def sword_def sorted_reverse_def filter_bids_def Let_def)
  show ?thesis
    using accept_finished [OF a1 a2, of "[]" False 3] accept_finished [OF a1 a2, of "[mk_bid ''alice'' Raider 20]" False 3]
    by (simp add: a1 a2 a3 r1 r2 r2 [symmetric])
qed

text \<open>
  C10: a call on an unknown channel or on a channel without an active auction, and a
  call on an auction whose status the operation excludes (\<open>bid\<close> and \<open>stop\<close> on
  Finished or Stopped, \<open>accept\<close> on Running or Stopped, \<open>reopen\<close> on Running), emits a
  single hidden message and leaves the whole state of the auctioneer as it was; in
  particular \<open>bid\<close> on a Stopped auction does.
\<close>

theorem rejection_leaves_state:
  "(auction_in s ch = None \<longrightarrow>
      (\<exists>m. Auctioneer_bid now slot s ch b amount i r = ([\<lparr>channel = ch, message = m, hidden = True\<rparr>], s))
      \<and> (\<exists>m. Auctioneer_stop s ch = ([\<lparr>channel = ch, message = m, hidden = True\<rparr>], s))
      \<and> (\<exists>m. Auctioneer_accept s ch force = ([\<lparr>channel = ch, message = m, hidden = True\<rparr>], s))
      \<and> (\<exists>m. Auctioneer_reopen now now' s ch = ([\<lparr>channel = ch, message = m, hidden = True\<rparr>], s))
      \<and> (\<exists>m. Auctioneer_restart now now' s ch = ([\<lparr>channel = ch, message = m, hidden = True\<rparr>], s))
      \<and> (\<exists>m. Auctioneer_delete s ch = ([\<lparr>channel = ch, message = m, hidden = True\<rparr>], s)))
   \<and> (auction_in s ch = Some a \<and> (status a = Finished \<or> status a = Stopped) \<longrightarrow>
      (\<exists>m. Auctioneer_bid now slot s ch b amount i r = ([\<lparr>channel = ch, message = m, hidden = True\<rparr>], s))
      \<and> (\<exists>m. Auctioneer_stop s ch = ([\<lparr>channel = ch, message = m, hidden = True\<rparr>], s)))
   \<and> (auction_in s ch = Some a \<and> (status a = Running \<or> status a = Stopped) \<longrightarrow>
      (\<exists>m. Auctioneer_accept s ch force = ([\<lparr>channel = ch, message = m, hidden = True\<rparr>], s)))
   \<and> (auction_in s ch = Some a \<and> status a = Running \<longrightarrow>
      (\<exists>m. Auctioneer_reopen now now' s ch = ([\<lparr>channel = ch, message = m, hidden = True\<rparr>], s)))"
proof (intro conjI impI)
  assume n: "auction_in s ch = None"
  show "\<exists>m. Auctioneer_bid now slot s ch b amount i r = ([\<lparr>channel = ch, message = m, hidden = True\<rparr>], s)"
    unfolding Auctioneer_bid_def by (rule check_channels_none [OF n])
  show "\<exists>m. Auctioneer_stop s ch = ([\<lparr>channel = ch, message = m, hidden = True\<rparr>], s)"
    unfolding Auctioneer_stop_def by (rule check_channels_none [OF n])
  show "\<exists>m. Auctioneer_accept s ch force = ([\<lparr>channel = ch, message = m, hidden = True\<rparr>], s)"
    unfolding Auctioneer_accept_def by (rule check_channels_none [OF n])
  show "\<exists>m. Auctioneer_reopen now now' s ch = ([\<lparr>channel = ch, message = m, hidden = True\<rparr>], s)"
    unfolding Auctioneer_reopen_def by (rule check_channels_none [OF n])
  show "\<exists>m. Auctioneer_restart now now' s ch = ([\<lparr>channel = ch, message = m, hidden = True\<rparr>], s)"
    unfolding Auctioneer_restart_def by (rule check_channels_none [OF n])
  show "\<exists>m. Auctioneer_delete s ch = ([\<lparr>channel = ch, message = m, hidden = True\<rparr>], s)"
    unfolding Auctioneer_delete_def by (rule check_channels_none [OF n])
next
  assume h: "auction_in s ch = Some a \<and> (status a = Finished \<or> status a = Stopped)"
  then have "status a \<in> fst ` set bid_statuses" "status a \<in> fst ` set stop_statuses"
    by (auto simp: bid_statuses_def stop_statuses_def)
  with h show "\<exists>m. Auctioneer_bid now slot s ch b amount i r = ([\<lparr>channel = ch, message = m, hidden = True\<rparr>], s)"
    and "\<exists>m. Auctioneer_stop s ch = ([\<lparr>channel = ch, message = m, hidden = True\<rparr>], s)"
    by (simp_all add: Auctioneer_bid_def Auctioneer_stop_def check_channels_some check_status_hit)
next
  assume h: "auction_in s ch = Some a \<and> (status a = Running \<or> status a = Stopped)"
  then have "status a \<in> fst ` set accept_statuses"
    by (auto simp: accept_statuses_def)
  with h show "\<exists>m. Auctioneer_accept s ch force = ([\<lparr>channel = ch, message = m, hidden = True\<rparr>], s)"
    by (simp add: Auctioneer_accept_def check_channels_some check_status_hit)
next
  assume h: "auction_in s ch = Some a \<and> status a = Running"
  then have "status a \<in> fst ` set reopen_statuses"
    by (auto simp: reopen_statuses_def)
  with h show "\<exists>m. Auctioneer_reopen now now' s ch = ([\<lparr>channel = ch, message = m, hidden = True\<rparr>], s)"
    by (simp add: Auctioneer_reopen_def check_channels_some check_status_hit)
qed

theorem rejection_leaves_state_witness:
  "auction_in (demo_state (demo_auction Stopped [] None)) ''c3'' = None
   \<and> (\<exists>m. Auctioneer_delete (demo_state (demo_auction Stopped [] None)) ''c3''
          = ([\<lparr>channel = ''c3'', message = m, hidden = True\<rparr>], demo_state (demo_auction Stopped [] None)))
   \<and> auction_in (demo_state (demo_auction Stopped [] None)) ''c1'' = Some (demo_auction Stopped [] None)
   \<and> status (demo_auction Stopped [] None) = Stopped
   \<and> (\<exists>m. Auctioneer_bid 5 0 (demo_state (demo_auction Stopped [] None)) ''c1'' ''alice'' 10 0 Raider
          = ([\<lparr>channel = ''c1'', message = m, hidden = True\<rparr>], demo_state (demo_auction Stopped [] None)))
   \<and> (\<exists>m. Auctioneer_accept (demo_state (demo_auction Stopped [] None)) ''c1'' True
          = ([\<lparr>channel = ''c1'', message = m, hidden = True\<rparr>], demo_state (demo_auction Stopped [] None)))
   \<and> auction_in (demo_state (demo_auction Running [] None)) ''c1'' = Some (demo_auction Running [] None)
   \<and> status (demo_auction Running [] None) = Running
   \<and> (\<exists>m. Auctioneer_reopen 5 6 (demo_state (demo_auction Running [] None)) ''c1''
          = ([\<lparr>channel = ''c1'', message = m, hidden = True\<rparr>], demo_state (demo_auction Running [] None)))"
proof -
  have n: "auction_in (demo_state (demo_auction Stopped [] None)) ''c3'' = None"
    by (simp add: auction_in_def demo_state_def)
  have a: "auction_in (demo_state (demo_auction st [] None)) ''c1'' = Some (demo_auction st [] None)" for st
    by (simp add: auction_in_def demo_state_def)
  have st: "status (demo_auction st [] None) = st" for st
    by (simp add: demo_auction_def)
  show ?thesis
    using rejection_leaves_state [of "demo_state (demo_auction Stopped [] None)" "''c3''"
        5 0 "''alice''" 10 0 Raider True 6 "demo_auction Stopped [] None"]
      rejection_leaves_state [of "demo_state (demo_auction Stopped [] None)" "''c1''"
        5 0 "''alice''" 10 0 Raider True 6 "demo_auction Stopped [] None"]
      rejection_leaves_state [of "demo_state (demo_auction Running [] None)" "''c1''"
        5 0 "''alice''" 10 0 Raider True 6 "demo_auction Running [] None"]
    by (simp add: n a st)
qed

section \<open>Properties of the tick and of the state machine\<close>

lemma auction_in_store:
  "auction_in (store s ch v) ch' = (if ch' = ch then v else auction_in s ch')"
  by (auto simp: auction_in_def store_def update_conv' split: option.splits)

lemma determine_results_fields:
  "determine_results (a\<lparr>status := st\<rparr>) d m = determine_results a d m"
  "determine_results (a\<lparr>results := r\<rparr>) d m = determine_results a d m"
  "determine_results (a\<lparr>last_updated := u\<rparr>) d m = determine_results a d m"
  by (simp_all add: determine_results_def)

lemma run_auction_closing:
  "status a = Running \<Longrightarrow> time_left a (at_time_left clk) = 0 \<Longrightarrow>
   run_auction clk d m ch a =
     ([\<lparr>channel = ch, message = AuctionClosed (determine_results a d m), hidden = False\<rparr>],
      a\<lparr>status := Finished, results := Some (determine_results a d m)\<rparr>)"
  by (simp add: run_auction_def Let_def determine_results_fields needs_update_def)

lemma run_auction_not_running:
  "status a \<noteq> Running \<Longrightarrow> run_auction clk d m ch a = ([], a)"
  by (simp add: run_auction_def Let_def needs_update_def)

lemma run_auction_open:
  "status a = Running \<Longrightarrow> time_left a (at_time_left clk) \<noteq> 0 \<Longrightarrow>
   snd (run_auction clk d m ch a) =
     (if needs_update a (at_needs_update clk) then a\<lparr>last_updated := Some (at_last_updated clk)\<rparr> else a)"
  by (simp add: run_auction_def Let_def)

lemma run_auction_channel:
  "x \<in> set (fst (run_auction clk d m ch a)) \<Longrightarrow> channel x = ch"
  by (auto simp: run_auction_def Let_def split: if_splits prod.splits)

lemma map_of_run_channels:
  "map_of (snd (run_channels clock d m chs)) ch =
     map_option (map_option (\<lambda>a. snd (run_auction (clock ch) d m ch a))) (map_of chs ch)"
  by (induction clock d m chs rule: run_channels.induct) (auto split: prod.splits)

lemma keys_run_channels:
  "map fst (snd (run_channels clock d m chs)) = map fst chs"
  by (induction clock d m chs rule: run_channels.induct) (auto split: prod.splits)

lemma messages_run_channels:
  "distinct (map fst chs) \<Longrightarrow>
   filter (\<lambda>x. channel x = ch) (fst (run_channels clock d m chs)) =
     (case map_of chs ch of
        Some (Some a) \<Rightarrow> fst (run_auction (clock ch) d m ch a)
      | _ \<Rightarrow> [])"
proof (induction clock d m chs rule: run_channels.induct)
  case (1 clock d m)
  then show ?case by simp
next
  case (2 clock d m c rest)
  show ?case
  proof (cases "ch = c")
    case True
    with 2 have "map_of rest ch = None"
      by (simp add: map_of_eq_None_iff)
    with 2 True show ?thesis
      by (simp add: split_beta)
  next
    case False
    with 2 show ?thesis
      by (simp add: split_beta)
  qed
next
  case (3 clock d m c auction rest)
  obtain ms1 a' where r: "run_auction (clock c) d m c auction = (ms1, a')"
    by (cases "run_auction (clock c) d m c auction")
  have own: "\<forall>x\<in>set ms1. channel x = c"
    using run_auction_channel [of _ "clock c" d m c auction] r by simp
  have IH: "filter (\<lambda>x. channel x = ch) (fst (run_channels clock d m rest)) =
     (case map_of rest ch of Some (Some a) \<Rightarrow> fst (run_auction (clock ch) d m ch a) | _ \<Rightarrow> [])"
    using "3.IH" [OF refl r [symmetric]] "3.prems" by simp
  show ?case
  proof (cases "ch = c")
    case True
    with "3.prems" have "map_of rest ch = None"
      by (simp add: map_of_eq_None_iff)
    with IH have "filter (\<lambda>x. channel x = ch) (fst (run_channels clock d m rest)) = []"
      by simp
    moreover from True own have "filter (\<lambda>x. channel x = ch) ms1 = ms1"
      by (simp add: filter_id_conv)
    ultimately show ?thesis
      using True r by (simp add: split_beta)
  next
    case False
    with own have "filter (\<lambda>x. channel x = ch) ms1 = []"
      by (auto simp: filter_empty_conv)
    with False IH r show ?thesis
      by (simp add: split_beta)
  qed
qed

lemma auction_in_run:
  "auction_in (snd (Auctioneer_run clock s)) ch =
     map_option (\<lambda>a. snd (run_auction (clock ch) (dkp s) (member_limit (limits s)) ch a)) (auction_in s ch)"
  by (simp add: Auctioneer_run_def auction_in_def map_of_run_channels split_beta split: option.splits)

lemma messages_run:
  "distinct (map fst (channels s)) \<Longrightarrow>
   filter (\<lambda>x. channel x = ch) (fst (Auctioneer_run clock s)) =
     (case auction_in s ch of
        Some a \<Rightarrow> fst (run_auction (clock ch) (dkp s) (member_limit (limits s)) ch a)
      | None \<Rightarrow> [])"
  using messages_run_channels [of "channels s" ch clock "dkp s" "member_limit (limits s)"]
  by (simp add: Auctioneer_run_def auction_in_def split_beta split: option.splits)

lemma run_keeps: "dkp (snd (Auctioneer_run clock s)) = dkp s"
  "limits (snd (Auctioneer_run clock s)) = limits s"
  "map fst (channels (snd (Auctioneer_run clock s))) = map fst (channels s)"
  using keys_run_channels [of clock "dkp s" "member_limit (limits s)" "channels s"]
  by (simp_all add: Auctioneer_run_def split_beta)


lemma auction_in_add: "auction_in (Auctioneer_add s it) ch = auction_in s ch"
  by (simp add: auction_in_def Auctioneer_add_def)

lemma auction_in_update_dkp: "auction_in (Auctioneer_update_dkp s d) ch = auction_in s ch"
  by (simp add: auction_in_def Auctioneer_update_dkp_def)

lemma check_channels_auction_in:
  "check_auction_channels s ch fn =
     (case auction_in s ch of
        None \<Rightarrow> check_auction_channels s ch fn
      | Some a \<Rightarrow> fn a)"
  by (auto simp: check_auction_channels_def auction_in_def split: option.splits)

lemma check_channels_none_state:
  "auction_in s ch = None \<Longrightarrow> snd (check_auction_channels s ch fn) = s"
  by (auto simp: check_auction_channels_def auction_in_def split: option.splits)

lemma bid_effect:
  "auction_in (snd (Auctioneer_bid now slot s ch b amount i r)) ch' = Some a' \<Longrightarrow>
   auction_in s ch' = Some a' \<or>
   (ch' = ch \<and> (\<exists>a. auction_in s ch = Some a \<and> status a = Running
       \<and> a' = a\<lparr>bids := set_add slot \<lparr>bidder = b, rank = r, bid = amount, bid_id = i\<rparr> (bids a),
                 last_bid := Some now\<rparr>))"
proof (cases "auction_in s ch")
  case None
  then show "auction_in (snd (Auctioneer_bid now slot s ch b amount i r)) ch' = Some a' \<Longrightarrow> ?thesis"
    by (simp add: Auctioneer_bid_def check_channels_none_state)
next
  case (Some a)
  then show "auction_in (snd (Auctioneer_bid now slot s ch b amount i r)) ch' = Some a' \<Longrightarrow> ?thesis"
    by (cases "status a")
      (auto simp: Auctioneer_bid_def check_channels_some bid_statuses_def Let_def
        auction_in_store split: prod.splits if_splits)
qed

lemma stop_effect:
  "auction_in (snd (Auctioneer_stop s ch)) ch' = Some a' \<Longrightarrow>
   auction_in s ch' = Some a' \<or>
   (ch' = ch \<and> (\<exists>a. auction_in s ch = Some a \<and> status a = Running \<and> a' = a\<lparr>status := Stopped\<rparr>))"
proof (cases "auction_in s ch")
  case None
  then show "auction_in (snd (Auctioneer_stop s ch)) ch' = Some a' \<Longrightarrow> ?thesis"
    by (simp add: Auctioneer_stop_def check_channels_none_state)
next
  case (Some a)
  then show "auction_in (snd (Auctioneer_stop s ch)) ch' = Some a' \<Longrightarrow> ?thesis"
    by (cases "status a")
      (auto simp: Auctioneer_stop_def check_channels_some stop_statuses_def Let_def
        auction_in_store split: if_splits)
qed

lemma reopen_effect:
  "auction_in (snd (Auctioneer_reopen now now' s ch)) ch' = Some a' \<Longrightarrow>
   auction_in s ch' = Some a' \<or>
   (ch' = ch \<and> (\<exists>a. auction_in s ch = Some a \<and> status a \<noteq> Running
       \<and> a' = a\<lparr>results := None, started_at := now, last_updated := None,
                 last_bid := None, status := Running\<rparr>))"
proof (cases "auction_in s ch")
  case None
  then show "auction_in (snd (Auctioneer_reopen now now' s ch)) ch' = Some a' \<Longrightarrow> ?thesis"
    by (simp add: Auctioneer_reopen_def check_channels_none_state)
next
  case (Some a)
  then show "auction_in (snd (Auctioneer_reopen now now' s ch)) ch' = Some a' \<Longrightarrow> ?thesis"
    by (cases "status a")
      (auto simp: Auctioneer_reopen_def check_channels_some reopen_statuses_def Let_def
        auction_in_store split: if_splits)
qed

lemma restart_effect:
  "auction_in (snd (Auctioneer_restart now now' s ch)) ch' = Some a' \<Longrightarrow>
   auction_in s ch' = Some a' \<or>
   (ch' = ch \<and> (\<exists>a. auction_in s ch = Some a \<and> a' = RunningAuction_new (item a) now))"
proof (cases "auction_in s ch")
  case None
  then show "auction_in (snd (Auctioneer_restart now now' s ch)) ch' = Some a' \<Longrightarrow> ?thesis"
    by (simp add: Auctioneer_restart_def check_channels_none_state)
next
  case (Some a)
  then show "auction_in (snd (Auctioneer_restart now now' s ch)) ch' = Some a' \<Longrightarrow> ?thesis"
    by (auto simp: Auctioneer_restart_def check_channels_some Let_def
        auction_in_store split: if_splits)
qed

lemma delete_effect:
  "auction_in (snd (Auctioneer_delete s ch)) ch' = Some a' \<Longrightarrow> auction_in s ch' = Some a'"
proof (cases "auction_in s ch")
  case None
  then show "auction_in (snd (Auctioneer_delete s ch)) ch' = Some a' \<Longrightarrow> ?thesis"
    by (simp add: Auctioneer_delete_def check_channels_none_state)
next
  case (Some a)
  then show "auction_in (snd (Auctioneer_delete s ch)) ch' = Some a' \<Longrightarrow> ?thesis"
    by (auto simp: Auctioneer_delete_def check_channels_some Let_def
        auction_in_store split: if_splits)
qed

lemma next_loop_origin:
  "next_loop pick clock i pending chs = (ms, pending', chs') \<Longrightarrow>
   map_of chs' ch = Some (Some a') \<Longrightarrow>
   map_of chs ch = Some (Some a') \<or> (\<exists>it t. a' = RunningAuction_new it t)"
proof (induction pick clock i pending chs arbitrary: ms pending' chs' rule: next_loop.induct)
  case (1 pick clock i chs)
  then show ?case by simp
next
  case (2 pick clock i it pending chs)
  let ?free = "map fst (filter (\<lambda>(c, a). a = None) chs)"
  show ?case
  proof (cases "?free = []")
    case True
    with 2 show ?thesis by simp
  next
    case False
    let ?c = "?free ! (pick i mod length ?free)"
    let ?a = "RunningAuction_new it (fst (clock i))"
    let ?chs = "AList.update ?c (Some ?a) chs"
    obtain ms2 p2 chs2 where r: "next_loop pick clock (Suc i) pending ?chs = (ms2, p2, chs2)"
      by (cases "next_loop pick clock (Suc i) pending ?chs") auto
    with False "2.prems" have "chs' = chs2"
      by (simp add: Let_def)
    with "2.IH" [OF refl False refl refl refl r] "2.prems"(2)
    have "map_of ?chs ch = Some (Some a') \<or> (\<exists>it t. a' = RunningAuction_new it t)"
      by simp
    then show ?thesis
      by (auto simp: update_conv' split: if_splits)
  qed
qed

lemma next_loop_keeps:
  "next_loop pick clock i pending chs = (ms, pending', chs') \<Longrightarrow>
   distinct (map fst chs) \<Longrightarrow>
   distinct (map fst chs') \<and> (map_of chs ch = Some (Some a) \<longrightarrow> map_of chs' ch = Some (Some a))"
proof (induction pick clock i pending chs arbitrary: ms pending' chs' rule: next_loop.induct)
  case (1 pick clock i chs)
  then show ?case by simp
next
  case (2 pick clock i it pending chs)
  let ?free = "map fst (filter (\<lambda>(c, a). a = None) chs)"
  show ?case
  proof (cases "?free = []")
    case True
    with 2 show ?thesis by simp
  next
    case False
    let ?c = "?free ! (pick i mod length ?free)"
    let ?a = "RunningAuction_new it (fst (clock i))"
    let ?chs = "AList.update ?c (Some ?a) chs"
    obtain ms2 p2 chs2 where r: "next_loop pick clock (Suc i) pending ?chs = (ms2, p2, chs2)"
      by (cases "next_loop pick clock (Suc i) pending ?chs") auto
    with False "2.prems" have eq: "chs' = chs2"
      by (simp add: Let_def)
    have d: "distinct (map fst ?chs)"
      using "2.prems"(2) by (rule distinct_update)
    from False have "pick i mod length ?free < length ?free"
      by simp
    then have "?c \<in> set ?free"
      by (rule nth_mem)
    then have "(?c, None) \<in> set chs"
      by auto
    with "2.prems"(2) have free: "map_of chs ?c = Some None"
      by simp
    have "map_of chs ch = Some (Some a) \<longrightarrow> map_of ?chs ch = Some (Some a)"
      using free by (auto simp: update_conv')
    with "2.IH" [OF refl False refl refl refl r d] eq show ?thesis
      by simp
  qed
qed

lemma next_effect:
  "auction_in (snd (Auctioneer_next pick clock s)) ch = Some a' \<Longrightarrow>
   auction_in s ch = Some a' \<or> (\<exists>it t. a' = RunningAuction_new it t)"
proof -
  obtain ms p chs where r: "next_loop pick clock 0 (pending_items s) (channels s) = (ms, p, chs)"
    by (cases "next_loop pick clock 0 (pending_items s) (channels s)") auto
  assume "auction_in (snd (Auctioneer_next pick clock s)) ch = Some a'"
  with r have "map_of chs ch = Some (Some a')"
    by (auto simp: Auctioneer_next_def auction_in_def split: option.splits)
  from next_loop_origin [OF r this] show ?thesis
    by (auto simp: auction_in_def)
qed

lemma next_keeps:
  assumes "distinct (map fst (channels s))"
  shows "distinct (map fst (channels (snd (Auctioneer_next pick clock s))))"
    and "auction_in s ch = Some a \<Longrightarrow> auction_in (snd (Auctioneer_next pick clock s)) ch = Some a"
proof -
  obtain ms p chs where r: "next_loop pick clock 0 (pending_items s) (channels s) = (ms, p, chs)"
    by (cases "next_loop pick clock 0 (pending_items s) (channels s)") auto
  have c: "channels (snd (Auctioneer_next pick clock s)) = chs"
    using r by (simp add: Auctioneer_next_def)
  from next_loop_keeps [OF r assms, of ch a] c
  show "distinct (map fst (channels (snd (Auctioneer_next pick clock s))))"
    by simp
  assume "auction_in s ch = Some a"
  then have "map_of (channels s) ch = Some (Some a)"
    by (simp add: auction_in_def split: option.splits)
  with next_loop_keeps [OF r assms, of ch a] have "map_of chs ch = Some (Some a)"
    by blast
  with c show "auction_in (snd (Auctioneer_next pick clock s)) ch = Some a"
    by (simp add: auction_in_def)
qed

lemma run_auction_results:
  assumes "results_match a"
  shows "results_match (snd (run_auction clk d m ch a))"
proof (cases "status a = Running")
  case True
  with assms show ?thesis
    by (cases "time_left a (at_time_left clk) = 0")
      (simp_all add: run_auction_closing run_auction_open results_match_def)
next
  case False
  with assms show ?thesis
    by (simp add: run_auction_not_running)
qed

lemma results_match_simps:
  "results_match a \<Longrightarrow> status a = Running \<Longrightarrow> results_match (a\<lparr>bids := bs, last_bid := lb\<rparr>)"
  "results_match a \<Longrightarrow> status a = Running \<Longrightarrow> results_match (a\<lparr>status := Stopped\<rparr>)"
  "results_match (a\<lparr>results := None, started_at := t, last_updated := None,
                     last_bid := None, status := Running\<rparr>)"
  "results_match (RunningAuction_new it t)"
  by (simp_all add: results_match_def RunningAuction_new_def)

lemma auction_in_init: "auction_in (Auctioneer_init chans lims) ch = None"
  by (simp add: auction_in_def Auctioneer_init_def map_of_map_restrict restrict_map_def
      split: option.splits)

lemma step_results:
  assumes inv: "\<forall>ch a. auction_in s ch = Some a \<longrightarrow> results_match a"
    and a': "auction_in (snd (step c s)) ch = Some a'"
  shows "results_match a'"
proof (cases c)
  case (Add it)
  with a' inv show ?thesis by (simp add: auction_in_add)
next
  case (UpdateDkp d)
  with a' inv show ?thesis by (simp add: auction_in_update_dkp)
next
  case (Run clock)
  with a' obtain a where a: "auction_in s ch = Some a"
    and eq: "a' = snd (run_auction (clock ch) (dkp s) (member_limit (limits s)) ch a)"
    by (auto simp: auction_in_run)
  from inv a have "results_match a" by blast
  then show ?thesis
    unfolding eq by (rule run_auction_results)
next
  case (PlaceBid now slot c' b amount i r)
  with a' bid_effect [of now slot s c' b amount i r ch a'] inv show ?thesis
    by (auto simp: results_match_simps)
next
  case (Stop c')
  with a' stop_effect [of s c' ch a'] inv show ?thesis
    by (auto simp: results_match_simps)
next
  case (Accept c' force)
  with a' inv show ?thesis by (simp add: accept_state)
next
  case (Reopen now now' c')
  with a' reopen_effect [of now now' s c' ch a'] inv show ?thesis
    by (auto simp: results_match_simps)
next
  case (Restart now now' c')
  with a' restart_effect [of now now' s c' ch a'] inv show ?thesis
    by (auto simp: results_match_simps)
next
  case (Delete c')
  with a' delete_effect [of s c' ch a'] inv show ?thesis
    by auto
next
  case (Next pick clock)
  with a' next_effect [of pick clock s ch a'] inv show ?thesis
    by (auto simp: results_match_simps)
qed

lemma reachable_results: "reachable s \<Longrightarrow> \<forall>ch a. auction_in s ch = Some a \<longrightarrow> results_match a"
proof (induction rule: reachable.induct)
  case (init chans lims)
  then show ?case by (simp add: auction_in_init)
next
  case (call s c)
  then show ?case
    using step_results by blast
qed

lemma store_keys: "distinct (map fst (channels s)) \<Longrightarrow> distinct (map fst (channels (store s ch v)))"
  by (simp add: store_def distinct_update)

lemma check_channels_keys:
  "distinct (map fst (channels s)) \<Longrightarrow>
   (\<And>a. distinct (map fst (channels (snd (fn a))))) \<Longrightarrow>
   distinct (map fst (channels (snd (check_auction_channels s ch fn))))"
  by (simp add: check_auction_channels_def split: option.splits)

lemma check_status_keys:
  "distinct (map fst (channels s)) \<Longrightarrow>
   distinct (map fst (channels (snd body))) \<Longrightarrow>
   distinct (map fst (channels (snd (check_auction_status sts s ch a body))))"
  by (induction sts) auto

lemma step_keys:
  assumes "distinct (map fst (channels s))"
  shows "distinct (map fst (channels (snd (step c s))))"
proof (cases c)
  case (Add it)
  with assms show ?thesis by (simp add: Auctioneer_add_def)
next
  case (UpdateDkp d)
  with assms show ?thesis by (simp add: Auctioneer_update_dkp_def)
next
  case (Run clock)
  with assms show ?thesis by (simp add: run_keeps)
next
  case (PlaceBid now slot c' b amount i r)
  with assms show ?thesis
    by (auto simp: Auctioneer_bid_def Let_def store_keys split: prod.splits
        intro!: check_channels_keys check_status_keys)
next
  case (Stop c')
  with assms show ?thesis
    by (auto simp: Auctioneer_stop_def Let_def store_keys
        intro!: check_channels_keys check_status_keys)
next
  case (Accept c' force)
  with assms show ?thesis by (simp add: accept_state)
next
  case (Reopen now now' c')
  with assms show ?thesis
    by (auto simp: Auctioneer_reopen_def Let_def store_keys
        intro!: check_channels_keys check_status_keys)
next
  case (Restart now now' c')
  with assms show ?thesis
    by (auto simp: Auctioneer_restart_def Let_def store_keys
        intro!: check_channels_keys check_status_keys)
next
  case (Delete c')
  with assms show ?thesis
    by (auto simp: Auctioneer_delete_def Let_def store_keys
        intro!: check_channels_keys check_status_keys)
next
  case (Next pick clock)
  with assms show ?thesis by (simp add: next_keeps)
qed

lemma reachable_keys: "reachable s \<Longrightarrow> distinct (map fst (channels s))"
proof (induction rule: reachable.induct)
  case (init chans lims)
  show ?case by (simp add: Auctioneer_init_def comp_def)
next
  case (call s c)
  then show ?case by (simp add: step_keys)
qed


lemma demo_keys: "distinct (map fst (channels (demo_state a)))"
  by (simp add: demo_state_def)

lemma demo_auction_in: "auction_in (demo_state a) ''c1'' = Some a"
  by (simp add: auction_in_def demo_state_def)

lemma reachable_after: "reachable s \<Longrightarrow> reachable (after cs s)"
  unfolding after_def by (induction cs arbitrary: s) (simp_all add: reachable.call)

lemma demo_run_state:
  "auction_in (after demo_run (Auctioneer_init [''c1''] demo_limits)) ''c1'' =
     Some \<lparr>item = sword 1, status = Finished, started_at = 0, last_bid = None,
           last_updated = Some (seconds 40), bids = [],
           results = Some \<lparr>winners = [], tied = [], rolled = 1\<rparr>\<rparr>"
  by (simp add: after_def demo_run_def Auctioneer_init_def Auctioneer_add_def Auctioneer_next_def
      Auctioneer_run_def RunningAuction_new_def run_auction_def time_left_def needs_update_def
      determine_results_def sorted_reverse_def filter_bids_def closing_clock_def seconds_def
      sword_def auction_in_def Let_def demo_limits_def)


text \<open>
  C5: when a channel holds a Running auction whose time left is 0 at the tick's clock
  reading, one call of \<open>run\<close> sets its status to Finished, caches the output of
  \<open>determine_results\<close> as its results, and emits for that channel exactly one message,
  the public closing message, hence no update message in the same tick; a second call
  of \<open>run\<close> afterwards emits no message for that channel.
\<close>

theorem run_closes_once:
  assumes "distinct (map fst (channels s))"
    and "auction_in s ch = Some a"
    and "status a = Running"
    and "time_left a (at_time_left (clock ch)) = 0"
  shows "auction_in (snd (Auctioneer_run clock s)) ch =
           Some (a\<lparr>status := Finished,
                   results := Some (determine_results a (dkp s) (member_limit (limits s)))\<rparr>)
       \<and> filter (\<lambda>x. channel x = ch) (fst (Auctioneer_run clock s)) =
           [\<lparr>channel = ch,
             message = AuctionClosed (determine_results a (dkp s) (member_limit (limits s))),
             hidden = False\<rparr>]
       \<and> filter (\<lambda>x. channel x = ch) (fst (Auctioneer_run clock' (snd (Auctioneer_run clock s)))) = []"
proof -
  let ?s' = "snd (Auctioneer_run clock s)"
  let ?a' = "a\<lparr>status := Finished,
                 results := Some (determine_results a (dkp s) (member_limit (limits s)))\<rparr>"
  have a': "auction_in ?s' ch = Some ?a'"
    using assms by (simp add: auction_in_run run_auction_closing)
  have ms: "filter (\<lambda>x. channel x = ch) (fst (Auctioneer_run clock s)) =
           [\<lparr>channel = ch,
             message = AuctionClosed (determine_results a (dkp s) (member_limit (limits s))),
             hidden = False\<rparr>]"
    using assms by (simp add: messages_run run_auction_closing)
  have d': "distinct (map fst (channels ?s'))"
    using assms(1) by (simp add: run_keeps)
  have "filter (\<lambda>x. channel x = ch) (fst (Auctioneer_run clock' ?s')) = []"
    using d' a' by (simp add: messages_run run_auction_not_running)
  with a' ms show ?thesis by simp
qed

theorem run_closes_once_witness:
  "distinct (map fst (channels (demo_state updated_auction)))
   \<and> auction_in (demo_state updated_auction) ''c1'' = Some updated_auction
   \<and> status updated_auction = Running
   \<and> time_left updated_auction (at_time_left (closing_clock ''c1'')) = 0
   \<and> auction_in (snd (Auctioneer_run closing_clock (demo_state updated_auction))) ''c1'' =
        Some (updated_auction\<lparr>status := Finished,
               results := Some \<lparr>winners = [], tied = [], rolled = 1\<rparr>\<rparr>)
   \<and> filter (\<lambda>x. channel x = ''c1'') (fst (Auctioneer_run closing_clock (demo_state updated_auction))) =
        [\<lparr>channel = ''c1'', message = AuctionClosed \<lparr>winners = [], tied = [], rolled = 1\<rparr>,
          hidden = False\<rparr>]
   \<and> filter (\<lambda>x. channel x = ''c1'')
        (fst (Auctioneer_run closing_clock (snd (Auctioneer_run closing_clock (demo_state updated_auction))))) = []"
proof -
  have st: "status updated_auction = Running"
    by (simp add: updated_auction_def demo_auction_def)
  have tl: "time_left updated_auction (at_time_left (closing_clock ''c1'')) = 0"
    by (simp add: updated_auction_def demo_auction_def closing_clock_def time_left_def seconds_def)
  have r: "determine_results updated_auction d m = \<lparr>winners = [], tied = [], rolled = 1\<rparr>" for d m
    by (simp add: determine_results_def updated_auction_def demo_auction_def sword_def
        sorted_reverse_def filter_bids_def)
  show ?thesis
    using run_closes_once [where clock = closing_clock and ch = "''c1''" and clock' = closing_clock,
        OF demo_keys [of updated_auction] demo_auction_in [of updated_auction] st tl]
    by (simp add: demo_keys demo_auction_in st tl r)
qed

text \<open>
  C7: in every state the auctioneer reaches from its creation by any sequence of calls
  of \<open>add\<close>, \<open>update_dkp\<close>, \<open>run\<close>, \<open>bid\<close>, \<open>stop\<close>, \<open>accept\<close>, \<open>reopen\<close>,
  \<open>restart\<close>, \<open>delete\<close> and \<open>next\<close>, the cached results of every auction are
  non-null if and only if its status is Finished.
\<close>

theorem results_iff_finished:
  "reachable s \<Longrightarrow> auction_in s ch = Some a \<Longrightarrow> (results a \<noteq> None) = (status a = Finished)"
  using reachable_results [of s] by (simp add: results_match_def)

theorem results_iff_finished_witness:
  "reachable (after demo_run (Auctioneer_init [''c1''] demo_limits))
   \<and> auction_in (after demo_run (Auctioneer_init [''c1''] demo_limits)) ''c1'' =
       Some \<lparr>item = sword 1, status = Finished, started_at = 0, last_bid = None,
           last_updated = Some (seconds 40), bids = [],
           results = Some \<lparr>winners = [], tied = [], rolled = 1\<rparr>\<rparr>
   \<and> (results \<lparr>item = sword 1, status = Finished, started_at = 0, last_bid = None,
           last_updated = Some (seconds 40), bids = [],
           results = Some \<lparr>winners = [], tied = [], rolled = 1\<rparr>\<rparr> \<noteq> None)
      = (status \<lparr>item = sword 1, status = Finished, started_at = 0, last_bid = None,
           last_updated = Some (seconds 40), bids = [],
           results = Some \<lparr>winners = [], tied = [], rolled = 1\<rparr>\<rparr> = Finished)"
  using results_iff_finished [OF reachable_after [OF reachable.init] demo_run_state]
    reachable_after [OF reachable.init, of demo_run "[''c1'']" demo_limits] demo_run_state
  by simp

text \<open>
  C8: in one call of the auctioneer, an auction that a channel holds before and after
  the call becomes Finished only from Running and only by \<open>run\<close> when its time left
  is 0; it becomes Stopped only from Running and only by \<open>stop\<close> on its channel; and it
  goes from Stopped or Finished to Running only by \<open>reopen\<close> on its channel, which
  keeps the auction and resets it, or by \<open>restart\<close>, which replaces it by a fresh
  auction for the same item. An auction that appears in an empty channel is a Running
  one started by \<open>next\<close>. So a Stopped auction never becomes Finished, and no
  transition is reversed by itself.
\<close>

theorem status_transitions:
  assumes keys: "distinct (map fst (channels s))"
    and a': "auction_in (snd (step c s)) ch = Some a'"
  shows "(auction_in s ch = None \<longrightarrow>
            status a' = Running \<and> (\<exists>pick clock. c = Next pick clock))
       \<and> (\<forall>a. auction_in s ch = Some a \<longrightarrow>
            (status a' = Finished \<and> status a \<noteq> Finished \<longrightarrow>
               status a = Running
               \<and> (\<exists>clock. c = Run clock \<and> time_left a (at_time_left (clock ch)) = 0))
          \<and> (status a' = Stopped \<and> status a \<noteq> Stopped \<longrightarrow>
               status a = Running \<and> c = Stop ch)
          \<and> (status a' = Running \<and> status a \<noteq> Running \<longrightarrow>
               (\<exists>now now'. c = Reopen now now' ch
                  \<and> a' = a\<lparr>results := None, started_at := now, last_updated := None,
                            last_bid := None, status := Running\<rparr>)
               \<or> (\<exists>now now'. c = Restart now now' ch \<and> a' = RunningAuction_new (item a) now)))"
proof (cases c)
  case (Add it)
  with a' show ?thesis by (auto simp: auction_in_add)
next
  case (UpdateDkp d)
  with a' show ?thesis by (auto simp: auction_in_update_dkp)
next
  case (Run clock)
  with a' obtain a where a: "auction_in s ch = Some a"
    and eq: "a' = snd (run_auction (clock ch) (dkp s) (member_limit (limits s)) ch a)"
    by (auto simp: auction_in_run)
  show ?thesis
  proof (cases "status a = Running")
    case True
    with a eq Run show ?thesis
      by (cases "time_left a (at_time_left (clock ch)) = 0")
        (auto simp: run_auction_closing run_auction_open)
  next
    case False
    with a eq Run show ?thesis
      by (auto simp: run_auction_not_running)
  qed
next
  case (PlaceBid now slot c' b amount i r)
  with a' bid_effect [of now slot s c' b amount i r ch a'] show ?thesis
    by auto
next
  case (Stop c')
  with a' stop_effect [of s c' ch a'] show ?thesis
    by auto
next
  case (Accept c' force)
  with a' show ?thesis by (auto simp: accept_state)
next
  case (Reopen now now' c')
  with a' reopen_effect [of now now' s c' ch a'] show ?thesis
    by auto
next
  case (Restart now now' c')
  with a' restart_effect [of now now' s c' ch a'] show ?thesis
    by (auto simp: RunningAuction_new_def)
next
  case (Delete c')
  with a' delete_effect [of s c' ch a'] show ?thesis
    by auto
next
  case (Next pick clock)
  show ?thesis
  proof (cases "auction_in s ch")
    case None
    with a' Next next_effect [of pick clock s ch a'] show ?thesis
      by (auto simp: RunningAuction_new_def)
  next
    case (Some a)
    with next_keeps(2) [OF keys, of ch a pick clock] a' Next show ?thesis
      by auto
  qed
qed

theorem status_transitions_witness:
  "distinct (map fst (channels (demo_state (demo_auction Running [] None))))
   \<and> auction_in (snd (step (Stop ''c1'') (demo_state (demo_auction Running [] None)))) ''c1''
        = Some ((demo_auction Running [] None)\<lparr>status := Stopped\<rparr>)
   \<and> auction_in (demo_state (demo_auction Running [] None)) ''c1'' = Some (demo_auction Running [] None)
   \<and> status ((demo_auction Running [] None)\<lparr>status := Stopped\<rparr>) = Stopped
   \<and> status (demo_auction Running [] None) = Running
   \<and> auction_in (snd (step (Run closing_clock) (demo_state updated_auction))) ''c1''
        = Some (updated_auction\<lparr>status := Finished,
               results := Some (determine_results updated_auction
                 (dkp (demo_state updated_auction)) (member_limit (limits (demo_state updated_auction))))\<rparr>)
   \<and> time_left updated_auction (at_time_left (closing_clock ''c1'')) = 0"
proof -
  let ?a = "demo_auction Running [] None"
  have st: "status ?a = Running"
    by (simp add: demo_auction_def)
  have stop: "auction_in (snd (step (Stop ''c1'') (demo_state ?a))) ''c1'' = Some (?a\<lparr>status := Stopped\<rparr>)"
    by (simp add: Auctioneer_stop_def check_channels_some [OF demo_auction_in] stop_statuses_def
        st auction_in_store)
  have st': "status updated_auction = Running"
    by (simp add: updated_auction_def demo_auction_def)
  have tl: "time_left updated_auction (at_time_left (closing_clock ''c1'')) = 0"
    by (simp add: updated_auction_def demo_auction_def closing_clock_def time_left_def seconds_def)
  have run: "auction_in (snd (step (Run closing_clock) (demo_state updated_auction))) ''c1''
        = Some (updated_auction\<lparr>status := Finished,
               results := Some (determine_results updated_auction
                 (dkp (demo_state updated_auction)) (member_limit (limits (demo_state updated_auction))))\<rparr>)"
    by (simp add: auction_in_run demo_auction_in run_auction_closing [OF st' tl])
  show ?thesis
    using status_transitions [OF demo_keys stop] status_transitions [OF demo_keys run]
    by (simp add: demo_keys demo_auction_in st stop run tl del: step.simps)
qed

section \<open>Properties of the results\<close>

lemma above_simps:
  "above f [] ys" "above f xs []"
  "above f (xs @ xs') ys = (above f xs ys \<and> above f xs' ys)"
  "above f xs (ys @ ys') = (above f xs ys \<and> above f xs ys')"
  by (auto simp: above_def)

lemma same_key_Nil: "same_key f []"
  by (simp add: same_key_def)

lemma sorted_reverse_set: "set (sorted_reverse f xs) = set xs"
  by (simp add: sorted_reverse_def)

lemma sorted_reverse_desc: "sorted_wrt (\<lambda>x y. f y \<le> f x) (sorted_reverse f xs)"
  using sorted_sort_key [of f "rev xs"]
  by (simp add: sorted_reverse_def sorted_wrt_rev sorted_map)

lemma filter_bids_from_set: "set (filter_bids_from seen xs) \<subseteq> set xs"
  by (induction xs arbitrary: seen) (auto simp: Let_def)

lemma filter_bids_from_unseen:
  "b \<in> set (filter_bids_from seen xs) \<Longrightarrow> pair_of b \<notin> seen"
  by (induction xs arbitrary: seen) (auto simp: Let_def pair_of_def split: if_splits)

lemma filter_bids_from_distinct: "distinct (map pair_of (filter_bids_from seen xs))"
proof (induction xs arbitrary: seen)
  case Nil
  show ?case by simp
next
  case (Cons x xs)
  have "pair_of x \<notin> pair_of ` set (filter_bids_from (insert (pair_of x) seen) xs)"
  proof
    assume "pair_of x \<in> pair_of ` set (filter_bids_from (insert (pair_of x) seen) xs)"
    then obtain b where "b \<in> set (filter_bids_from (insert (pair_of x) seen) xs)"
      and "pair_of b = pair_of x"
      by auto
    with filter_bids_from_unseen [of b "insert (pair_of x) seen" xs] show False
      by simp
  qed
  with Cons show ?case
    by (simp add: Let_def pair_of_def)
qed

lemma filter_bids_from_sorted:
  "sorted_wrt P xs \<Longrightarrow> sorted_wrt P (filter_bids_from seen xs)"
proof (induction xs arbitrary: seen)
  case Nil
  show ?case by simp
next
  case (Cons x xs)
  then show ?case
    using filter_bids_from_set [of "insert (bidder x, bid_id x) seen" xs]
    by (auto simp: Let_def)
qed

lemma filter_bids_from_first:
  "sorted_wrt (\<lambda>x y. f y \<le> f x) xs \<Longrightarrow> b \<in> set (filter_bids_from seen xs) \<Longrightarrow>
   b' \<in> set xs \<Longrightarrow> pair_of b' = pair_of b \<Longrightarrow> f b' \<le> (f b :: 'k::linorder)"
proof (induction xs arbitrary: seen)
  case Nil
  then show ?case by simp
next
  case (Cons x xs)
  show ?case
  proof (cases "b = x \<and> pair_of x \<notin> seen")
    case True
    with Cons.prems show ?thesis by auto
  next
    case False
    with Cons.prems(2) obtain seen' where in': "b \<in> set (filter_bids_from seen' xs)"
      and seen': "pair_of x \<in> seen'"
      by (auto simp: Let_def pair_of_def split: if_splits)
    from filter_bids_from_unseen [OF in'] seen' have "pair_of b \<noteq> pair_of x"
      by auto
    with Cons.prems have "b' \<in> set xs" by auto
    with Cons.IH [OF _ in' _ Cons.prems(4)] Cons.prems(1) show ?thesis
      by simp
  qed
qed

lemma concat_groupby: "concat (groupby f xs) = xs"
  by (induction f xs rule: groupby.induct) simp_all

lemma dropWhile_below:
  "sorted_wrt (\<lambda>x y. f y \<le> f x) (x # xs) \<Longrightarrow>
   y \<in> set (dropWhile (\<lambda>y. f y = f x) xs) \<Longrightarrow> f y < (f x :: 'k::linorder)"
proof (induction xs)
  case Nil
  then show ?case by simp
next
  case (Cons z zs)
  show ?case
  proof (cases "f z = f x")
    case True
    with Cons show ?thesis by auto
  next
    case False
    with Cons.prems have "f z < f x" by auto
    moreover from Cons.prems False have "y = z \<or> (y \<in> set zs \<and> f y \<le> f z)"
      by auto
    ultimately show ?thesis by auto
  qed
qed

lemma chain_groupby:
  "sorted_wrt (\<lambda>x y. f y \<le> f x) xs \<Longrightarrow> chain f (groupby f xs)"
proof (induction f xs rule: groupby.induct)
  case (1 f)
  show ?case by simp
next
  case (2 f x xs)
  have s: "sorted_wrt (\<lambda>x y. f y \<le> f x) (dropWhile (\<lambda>y. f y = f x) xs)"
    using "2.prems" by simp
  have same: "\<forall>y\<in>set (takeWhile (\<lambda>y. f y = f x) xs). f y = f x"
    by (auto dest: set_takeWhileD)
  have below: "\<forall>y\<in>set (dropWhile (\<lambda>y. f y = f x) xs). f y < f x"
    using dropWhile_below [OF "2.prems"] by blast
  let ?g = "x # takeWhile (\<lambda>y. f y = f x) xs"
  let ?rest = "dropWhile (\<lambda>y. f y = f x) xs"
  from same have key: "\<And>a. a \<in> set ?g \<Longrightarrow> f a = f x"
    by (metis set_ConsD)
  have "chain f (?g # groupby f ?rest)"
    unfolding chain.simps same_key_def above_def
  proof (intro conjI ballI)
    show "?g \<noteq> []" by (rule list.distinct(2))
  next
    fix a b assume a: "a \<in> set ?g" and b: "b \<in> set ?g"
    from key [OF a] key [OF b] show "f a = f b" by simp
  next
    fix a y assume a: "a \<in> set ?g" and y: "y \<in> set (concat (groupby f ?rest))"
    from y have "y \<in> set ?rest" by (simp only: concat_groupby)
    with below key [OF a] show "f y < f a" by simp
  next
    show "chain f (groupby f ?rest)" by (rule "2.IH" [OF s])
  qed
  then show ?case
    by (simp only: groupby.simps)
qed

lemma award_shape:
  "chain f gs \<Longrightarrow> award gs need ws = (W, T, n) \<Longrightarrow>
   \<exists>ws' rest. W = ws @ ws' \<and> concat gs = ws' @ T @ rest
     \<and> above f ws' (T @ rest) \<and> same_key f T \<and> above f T rest
     \<and> n = need - int (length ws')
     \<and> (T \<noteq> [] \<longrightarrow> n < int (length T))
     \<and> (T = [] \<longrightarrow> n = 0 \<or> rest = [])
     \<and> (0 \<le> need \<longrightarrow> 0 \<le> n)"
proof (induction gs arbitrary: need ws)
  case Nil
  then show ?case by (simp add: above_simps same_key_Nil)
next
  case (Cons g gs)
  from Cons.prems(1) have g: "g \<noteq> []" "same_key f g" "above f g (concat gs)" "chain f gs"
    by simp_all
  show ?case
  proof (cases "int (length g) \<le> need")
    case fits: True
    show ?thesis
    proof (cases "need - int (length g) = 0")
      case True
      with fits Cons.prems(2) have "W = ws @ g" "T = []" "n = 0"
        by (simp_all add: Let_def)
      with g True show ?thesis
        by (intro exI [of _ g] exI [of _ "concat gs"]) (simp add: above_simps same_key_Nil)
    next
      case False
      with fits Cons.prems(2) have "award gs (need - int (length g)) (ws @ g) = (W, T, n)"
        by (simp add: Let_def)
      from Cons.IH [OF g(4) this]
      obtain ws' rest where *: "W = (ws @ g) @ ws'" "concat gs = ws' @ T @ rest"
        "above f ws' (T @ rest)" "same_key f T" "above f T rest"
        "n = need - int (length g) - int (length ws')"
        "T \<noteq> [] \<longrightarrow> n < int (length T)"
        "T = [] \<longrightarrow> n = 0 \<or> rest = []"
        "0 \<le> need - int (length g) \<longrightarrow> 0 \<le> n"
        by blast
      from g(3) *(2) have "above f g (T @ rest)"
        by (simp add: above_simps)
      with * fits show ?thesis
        by (intro exI [of _ "g @ ws'"] exI [of _ rest]) (simp add: above_simps)
    qed
  next
    case False
    with Cons.prems(2) have "W = ws" "T = g" "n = need"
      by simp_all
    with g False show ?thesis
      by (intro exI [of _ "[]"] exI [of _ "concat gs"]) (simp add: above_simps)
  qed
qed

lemma determine_results_award:
  "award (groupby (bid_key d m) (filter_bids (sorted_reverse (bid_key d m) (bids a))))
     (quantity (item a)) [] = (W, T, n) \<Longrightarrow>
   determine_results a d m = \<lparr>winners = W, tied = T, rolled = n\<rparr>"
  by (simp add: determine_results_def Let_def)

lemma all_bids_sorted:
  "sorted_wrt (\<lambda>x y. bid_key d m y \<le> bid_key d m x)
     (filter_bids (sorted_reverse (bid_key d m) (bids a)))"
  unfolding filter_bids_def by (rule filter_bids_from_sorted) (rule sorted_reverse_desc)

lemma determine_results_shape:
  fixes a d m
  defines "f \<equiv> bid_key d m" and "r \<equiv> determine_results a d m"
  shows "\<exists>rest. filter_bids (sorted_reverse f (bids a)) = winners r @ tied r @ rest
     \<and> above f (winners r) (tied r @ rest) \<and> same_key f (tied r) \<and> above f (tied r) rest
     \<and> (tied r \<noteq> [] \<longrightarrow> quantity (item a) - int (length (winners r)) < int (length (tied r)))
     \<and> (tied r = [] \<longrightarrow>
           rolled r = quantity (item a) - int (length (winners r)) \<and> (rolled r = 0 \<or> rest = []))
     \<and> (0 \<le> quantity (item a) \<longrightarrow> int (length (winners r)) \<le> quantity (item a))"
proof -
  let ?ab = "filter_bids (sorted_reverse f (bids a))"
  obtain W T n where aw: "award (groupby f ?ab) (quantity (item a)) [] = (W, T, n)"
    by (cases "award (groupby f ?ab) (quantity (item a)) []") auto
  then have r: "r = \<lparr>winners = W, tied = T, rolled = n\<rparr>"
    unfolding r_def f_def by (rule determine_results_award)
  have "chain f (groupby f ?ab)"
    unfolding f_def by (rule chain_groupby) (rule all_bids_sorted)
  from award_shape [OF this aw]
  obtain ws' rest where *: "W = [] @ ws'" "concat (groupby f ?ab) = ws' @ T @ rest"
    "above f ws' (T @ rest)" "same_key f T" "above f T rest"
    "n = quantity (item a) - int (length ws')"
    "T \<noteq> [] \<longrightarrow> n < int (length T)"
    "T = [] \<longrightarrow> n = 0 \<or> rest = []"
    "0 \<le> quantity (item a) \<longrightarrow> 0 \<le> n"
    by blast
  then show ?thesis
    unfolding r by (intro exI [of _ rest]) (simp add: concat_groupby)
qed

lemma same_bidder_key:
  assumes "bid_key d m b' \<le> bid_key d m b" and "bidder b' = bidder b" and "rank b' = rank b"
  shows "bid b' \<le> bid b"
  using assms by (auto simp: bid_key_def less_eq_prod_def split: if_splits)

lemma counted_bids:
  fixes a d m
  defines "f \<equiv> bid_key d m" and "r \<equiv> determine_results a d m"
  shows "distinct (map pair_of (winners r @ tied r))"
    and "b \<in> set (winners r @ tied r) \<Longrightarrow> b \<in> set (bids a)"
    and "b \<in> set (winners r @ tied r) \<Longrightarrow> b' \<in> set (bids a) \<Longrightarrow> pair_of b' = pair_of b \<Longrightarrow>
         f b' \<le> f b"
proof -
  let ?ab = "filter_bids (sorted_reverse f (bids a))"
  from determine_results_shape [of d m a]
  obtain rest where ab: "?ab = winners r @ tied r @ rest"
    unfolding f_def r_def by blast
  have "distinct (map pair_of ?ab)"
    unfolding filter_bids_def by (rule filter_bids_from_distinct)
  with ab have "distinct (map pair_of ((winners r @ tied r) @ rest))"
    by simp
  then show "distinct (map pair_of (winners r @ tied r))"
    unfolding map_append distinct_append by (rule conjunct1)
  assume b: "b \<in> set (winners r @ tied r)"
  with ab have in_ab: "b \<in> set (filter_bids_from {} (sorted_reverse f (bids a)))"
    unfolding filter_bids_def by auto
  with filter_bids_from_set [of "{}" "sorted_reverse f (bids a)"]
  show "b \<in> set (bids a)"
    by (auto simp: sorted_reverse_set)
  assume "b' \<in> set (bids a)" and "pair_of b' = pair_of b"
  with filter_bids_from_first [OF sorted_reverse_desc in_ab, of b'] show "f b' \<le> f b"
    by (simp add: sorted_reverse_set)
qed

lemma two_elements:
  assumes "distinct ts" and "set ts = {x, y}" and "x \<noteq> y"
  shows "ts = [x, y] \<or> ts = [y, x]"
proof -
  from assms have "length ts = 2"
    using distinct_card [of ts] by simp
  then obtain u v where "ts = [u, v]"
    by (cases ts; cases "tl ts") auto
  with assms show ?thesis
    by (auto simp: doubleton_eq_iff)
qed

lemma sorted_same: "\<forall>x\<in>set xs. f x = (c :: 'k::linorder) \<Longrightarrow> sorted (map f xs)"
  by (induction xs) auto

lemma filter_other_key:
  "c \<noteq> c' \<Longrightarrow> filter (\<lambda>y. c = f y \<and> c' = f y) ys = []"
  by (induction ys) auto

lemma sorted_reverse_two_then_tie:
  fixes f :: "'a \<Rightarrow> 'k::linorder"
  assumes d: "distinct xs" and s: "set xs = {b1, b2, b3, b4}"
    and k: "f b2 < f b1" "f b3 < f b2" "f b4 = f b3" and ne: "b3 \<noteq> b4"
  shows "sorted_reverse f xs = [b1, b2, b3, b4] \<or> sorted_reverse f xs = [b1, b2, b4, b3]"
proof -
  let ?ys = "rev xs"
  let ?T = "filter (\<lambda>x. f b3 = f x) ?ys"
  from k have neq: "f b1 \<noteq> f b2" "f b1 \<noteq> f b3" "f b2 \<noteq> f b3" "f b3 \<noteq> f b1" "f b3 \<noteq> f b2"
    "f b2 \<noteq> f b1"
    by auto
  with k ne have dist: "distinct [b1, b2, b3, b4]"
    by auto
  with d s have m: "mset xs = {#b1, b2, b3, b4#}"
    using set_eq_iff_mset_eq_distinct [of xs "[b1, b2, b3, b4]"] by simp
  have mT: "mset ?T = {#b3, b4#}"
    using k neq by (simp add: m)
  have f1: "filter (\<lambda>x. f b1 = f x) ?ys = [b1]"
    using k neq by (simp add: m flip: mset_single_iff)
  have f2: "filter (\<lambda>x. f b2 = f x) ?ys = [b2]"
    using k neq by (simp add: m flip: mset_single_iff)
  have setT: "set ?T = {b3, b4}"
    using mT by (metis mset.simps(2) mset_zero_iff set_mset_mset list.simps(15) empty_set)
  have sort: "sort_key f ?ys = ?T @ [b2, b1]"
  proof (rule properties_for_sort_key)
    show "mset (?T @ [b2, b1]) = mset ?ys"
      using mT m by simp
    show "sorted (map f (?T @ [b2, b1]))"
      using k sorted_same [of ?T f "f b3"] by (auto simp: sorted_append)
    fix x assume "x \<in> set (?T @ [b2, b1])"
    with setT k(3) consider "x = b1" | "x = b2" | "f x = f b3"
      by auto
    then show "filter (\<lambda>y. f x = f y) (?T @ [b2, b1]) = filter (\<lambda>y. f x = f y) ?ys"
    proof cases
      case 1
      have "filter (\<lambda>y. f b1 = f y) (?T @ [b2, b1]) = [b1]"
        using neq(1) by (simp add: filter_other_key [OF neq(4)])
      with 1 f1 show ?thesis by simp
    next
      case 2
      have "filter (\<lambda>y. f b2 = f y) (?T @ [b2, b1]) = [b2]"
        using neq(6) by (simp add: filter_other_key [OF neq(5)])
      with 2 f2 show ?thesis by simp
    next
      case 3
      have "filter (\<lambda>y. f b3 = f y) (?T @ [b2, b1]) = ?T"
        using neq(4,5) by simp
      with 3 show ?thesis by simp
    qed
  qed
  have "distinct ?T" using d by simp
  from two_elements [OF this setT ne] have "?T = [b3, b4] \<or> ?T = [b4, b3]" .
  with sort show ?thesis
    by (auto simp: sorted_reverse_def)
qed

lemma two_winners_then_tie:
  assumes d: "distinct (bids a)" and s: "set (bids a) = {b1, b2, b3, b4}"
    and k: "bid_key d' m b2 < bid_key d' m b1" "bid_key d' m b3 < bid_key d' m b2"
      "bid_key d' m b4 = bid_key d' m b3"
    and p: "distinct (map pair_of [b1, b2, b3, b4])"
    and q: "quantity (item a) = 3"
  shows "winners (determine_results a d' m) = [b1, b2]
       \<and> (tied (determine_results a d' m) = [b3, b4] \<or> tied (determine_results a d' m) = [b4, b3])"
proof -
  from p have ne: "b3 \<noteq> b4" by auto
  from k have neq: "bid_key d' m b2 \<noteq> bid_key d' m b1" "bid_key d' m b3 \<noteq> bid_key d' m b2"
    "bid_key d' m b3 \<noteq> bid_key d' m b1"
    by auto
  from p have pairs:
    "(bidder b1, bid_id b1) \<noteq> (bidder b2, bid_id b2)" "(bidder b1, bid_id b1) \<noteq> (bidder b3, bid_id b3)"
    "(bidder b1, bid_id b1) \<noteq> (bidder b4, bid_id b4)" "(bidder b2, bid_id b2) \<noteq> (bidder b3, bid_id b3)"
    "(bidder b2, bid_id b2) \<noteq> (bidder b4, bid_id b4)" "(bidder b3, bid_id b3) \<noteq> (bidder b4, bid_id b4)"
    "(bidder b2, bid_id b2) \<noteq> (bidder b1, bid_id b1)" "(bidder b3, bid_id b3) \<noteq> (bidder b1, bid_id b1)"
    "(bidder b4, bid_id b4) \<noteq> (bidder b1, bid_id b1)" "(bidder b3, bid_id b3) \<noteq> (bidder b2, bid_id b2)"
    "(bidder b4, bid_id b4) \<noteq> (bidder b2, bid_id b2)" "(bidder b4, bid_id b4) \<noteq> (bidder b3, bid_id b3)"
    by (auto simp: pair_of_def)
  from sorted_reverse_two_then_tie [OF d s k ne]
  show ?thesis
  proof
    assume "sorted_reverse (bid_key d' m) (bids a) = [b1, b2, b3, b4]"
    then have "determine_results a d' m = \<lparr>winners = [b1, b2], tied = [b3, b4], rolled = 1\<rparr>"
      using pairs neq k(3) q
      by (simp add: determine_results_def filter_bids_def Let_def del: prod.inject)
    then show ?thesis by simp
  next
    assume "sorted_reverse (bid_key d' m) (bids a) = [b1, b2, b4, b3]"
    then have "determine_results a d' m = \<lparr>winners = [b1, b2], tied = [b4, b3], rolled = 1\<rparr>"
      using pairs neq k(3) q
      by (simp add: determine_results_def filter_bids_def Let_def del: prod.inject)
    then show ?thesis by simp
  qed
qed

lemma scenario_tie_of_two:
  assumes "n1 \<noteq> n2" and "m \<le> amount"
    and "current (dkp_get d n1) = current (dkp_get d n2)"
    and "quantity (item a) = 1"
    and "distinct (bids a)"
    and "set (bids a) = {\<lparr>bidder = n1, rank = Raider, bid = amount, bid_id = i1\<rparr>,
                         \<lparr>bidder = n2, rank = Raider, bid = amount, bid_id = i2\<rparr>}"
  shows "winners (determine_results a d m) = []
       \<and> tied (determine_results a d m) = bids a"
proof -
  let ?b1 = "\<lparr>bidder = n1, rank = Raider, bid = amount, bid_id = i1\<rparr>"
  let ?b2 = "\<lparr>bidder = n2, rank = Raider, bid = amount, bid_id = i2\<rparr>"
  from assms(1) have "?b1 \<noteq> ?b2" by simp
  from two_elements [OF assms(5,6) this] show ?thesis
    using assms(1-4)
    by (auto simp: determine_results_def sorted_reverse_def filter_bids_def bid_key_def Let_def)
qed

lemma scenario_two_winners_then_tie:
  assumes "distinct [n1, n2, n3, n4]"
    and "current (dkp_get d n3) = current (dkp_get d n4)"
    and "quantity (item a) = 3"
    and "distinct (bids a)"
    and "set (bids a) = {\<lparr>bidder = n1, rank = r, bid = 100, bid_id = i1\<rparr>,
                         \<lparr>bidder = n2, rank = r, bid = 90, bid_id = i2\<rparr>,
                         \<lparr>bidder = n3, rank = r, bid = 80, bid_id = i3\<rparr>,
                         \<lparr>bidder = n4, rank = r, bid = 80, bid_id = i4\<rparr>}"
  shows "winners (determine_results a d m) =
           [\<lparr>bidder = n1, rank = r, bid = 100, bid_id = i1\<rparr>,
            \<lparr>bidder = n2, rank = r, bid = 90, bid_id = i2\<rparr>]
       \<and> set (tied (determine_results a d m)) =
           {\<lparr>bidder = n3, rank = r, bid = 80, bid_id = i3\<rparr>,
            \<lparr>bidder = n4, rank = r, bid = 80, bid_id = i4\<rparr>}
       \<and> length (tied (determine_results a d m)) = 2"
proof -
  let ?b1 = "\<lparr>bidder = n1, rank = r, bid = 100, bid_id = i1\<rparr>"
  let ?b2 = "\<lparr>bidder = n2, rank = r, bid = 90, bid_id = i2\<rparr>"
  let ?b3 = "\<lparr>bidder = n3, rank = r, bid = 80, bid_id = i3\<rparr>"
  let ?b4 = "\<lparr>bidder = n4, rank = r, bid = 80, bid_id = i4\<rparr>"
  have k: "bid_key d m ?b2 < bid_key d m ?b1" "bid_key d m ?b3 < bid_key d m ?b2"
    "bid_key d m ?b4 = bid_key d m ?b3"
    using assms(2) by (simp_all add: bid_key_def)
  have p: "distinct (map pair_of [?b1, ?b2, ?b3, ?b4])"
    using assms(1) by (simp add: pair_of_def)
  from two_winners_then_tie [OF assms(4,5) k p assms(3)] show ?thesis
    by auto
qed

lemmas eval_results =
  determine_results_def sorted_reverse_def filter_bids_def bid_key_def dkp_get_def
  CharacterDKP_new_def Let_def

lemma tie_rolled_example:
  "determine_results
     (demo_auction Running [mk_bid ''alice'' Raider 50, mk_bid ''bob'' Raider 50] None)
     (balances [(''alice'', 200), (''bob'', 200)]) 10
     = \<lparr>winners = [], tied = [mk_bid ''alice'' Raider 50, mk_bid ''bob'' Raider 50], rolled = 1\<rparr>"
  by (simp add: eval_results demo_auction_def sword_def mk_bid_def balances_def)

lemma first_bid_eval:
  "first_bid =
     ([\<lparr>channel = ''c1'', message = Str ''Bid Accepted!'', hidden = True\<rparr>,
       \<lparr>channel = ''c1'', message = HasBid ''alice'' 100, hidden = False\<rparr>],
      demo_state ((demo_auction Running [mk_bid ''alice'' Raider 100] None)
                    \<lparr>last_bid := Some (seconds 10)\<rparr>))"
  by (simp add: first_bid_def Auctioneer_bid_def check_auction_channels_def bid_statuses_def
      validate_bid_def dkp_get_def set_add_def store_def demo_state_def demo_auction_def
      demo_limits_def balances_def mk_bid_def Let_def)

lemma second_bid_eval:
  "second_bid =
     ([\<lparr>channel = ''c1'', message = Str ''Bid Accepted!'', hidden = True\<rparr>,
       \<lparr>channel = ''c1'', message = HasBid ''alice'' 50, hidden = False\<rparr>],
      demo_state ((demo_auction Running [mk_bid ''alice'' Raider 50, mk_bid ''alice'' Raider 100] None)
                    \<lparr>last_bid := Some (seconds 20)\<rparr>))"
  by (simp add: second_bid_def first_bid_eval Auctioneer_bid_def check_auction_channels_def
      bid_statuses_def validate_bid_def dkp_get_def set_add_def store_def demo_state_def
      demo_auction_def demo_limits_def balances_def mk_bid_def Let_def)


lemma aboveD: "above f xs ys \<Longrightarrow> x \<in> set xs \<Longrightarrow> y \<in> set ys \<Longrightarrow> f y < f x"
  unfolding above_def by blast

lemma same_keyD: "same_key f xs \<Longrightarrow> x \<in> set xs \<Longrightarrow> y \<in> set xs \<Longrightarrow> f x = f y"
  unfolding same_key_def by blast

lemma award_sound:
  "chain f gs \<Longrightarrow> award gs need ws = (W, T, n) \<Longrightarrow>
   \<exists>ws' rest. W = ws @ ws' \<and> concat gs = ws' @ T @ rest \<and> n = need - int (length ws')
     \<and> settled f need ws' T rest"
proof (induction gs arbitrary: need ws)
  case Nil
  then show ?case by (simp add: settled_def above_simps same_key_Nil)
next
  case (Cons g gs)
  from Cons.prems(1) have g: "g \<noteq> []" "same_key f g" "above f g (concat gs)" "chain f gs"
    by simp_all
  show ?case
  proof (cases "int (length g) \<le> need")
    case fits: True
    show ?thesis
    proof (cases "need - int (length g) = 0")
      case True
      with fits Cons.prems(2) have "W = ws @ g" "T = []" "n = 0"
        by (simp_all add: Let_def)
      with g True show ?thesis
        by (intro exI [of _ g] exI [of _ "concat gs"])
          (simp add: settled_def above_simps same_key_Nil)
    next
      case False
      with fits Cons.prems(2) have "award gs (need - int (length g)) (ws @ g) = (W, T, n)"
        by (simp add: Let_def)
      from Cons.IH [OF g(4) this]
      obtain ws' rest where *: "W = (ws @ g) @ ws'" "concat gs = ws' @ T @ rest"
        "n = need - int (length g) - int (length ws')"
        "settled f (need - int (length g)) ws' T rest"
        by blast
      from g(3) *(2) have "above f g (T @ rest)"
        by (simp add: above_simps)
      from g(1) have lg: "1 \<le> int (length g)" by (cases g) simp_all
      from *(4) have t: "above f ws' (T @ rest)" "same_key f T" "above f T rest"
        "int (length ws') \<le> max 0 (need - int (length g))"
        "T \<noteq> [] \<longrightarrow> need - int (length g) - int (length ws') < int (length T)
           \<and> (need - int (length g) \<noteq> 0 \<longrightarrow> int (length ws') \<noteq> need - int (length g))"
        "T = [] \<longrightarrow> rest = [] \<or> (int (length ws') = need - int (length g) \<and> ws' \<noteq> [])"
        by (simp_all add: settled_def)
      have "settled f need (g @ ws') T rest"
        unfolding settled_def
      proof (intro conjI impI)
        show "above f (g @ ws') (T @ rest)"
          using \<open>above f g (T @ rest)\<close> t(1) by (simp add: above_simps)
        show "same_key f T" "above f T rest" by fact+
        show "int (length (g @ ws')) \<le> max 0 need"
          using t(4) fits by simp
        { assume "T \<noteq> []"
          with t(5) False
          show "need - int (length (g @ ws')) < int (length T)"
            and "need \<noteq> 0 \<Longrightarrow> int (length (g @ ws')) \<noteq> need"
            by simp_all }
        { assume "T = []"
          with t(6) g(1) show "rest = [] \<or> (int (length (g @ ws')) = need \<and> g @ ws' \<noteq> [])"
            by auto }
      qed
      with * show ?thesis
        by (intro exI [of _ "g @ ws'"] exI [of _ rest]) simp
    qed
  next
    case False
    with Cons.prems(2) have "W = ws" "T = g" "n = need"
      by simp_all
    with g False show ?thesis
      by (intro exI [of _ "[]"] exI [of _ "concat gs"]) (simp add: settled_def above_simps)
  qed
qed

lemma group_in_prefix:
  assumes eq: "g @ X = A @ B" and A: "A \<noteq> []" and g: "same_key f g" and ab: "above f A B"
  shows "\<exists>A2. A = g @ A2"
proof -
  from eq have "\<exists>us. g = A @ us \<and> us @ X = B \<or> g @ us = A \<and> X = us @ B"
    by (simp only: append_eq_append_conv2)
  then show ?thesis
  proof (elim exE disjE conjE)
    fix us assume 1: "g = A @ us" and 2: "us @ X = B"
    show ?thesis
    proof (cases us)
      case Nil
      with 1 have "A = g @ []" by simp
      then show ?thesis by (rule exI)
    next
      case (Cons y ys)
      from A obtain x xs where xs: "A = x # xs" by (cases A) simp_all
      have xg: "x \<in> set g" unfolding 1 xs by simp
      have yg: "y \<in> set g" unfolding 1 Cons by simp
      have xA: "x \<in> set A" unfolding xs by simp
      have yB: "y \<in> set B" unfolding 2 [symmetric] Cons by simp
      from same_keyD [OF g xg yg] aboveD [OF ab xA yB] have False by simp
      then show ?thesis ..
    qed
  next
    fix us assume "g @ us = A"
    then have "A = g @ us" by (rule sym)
    then show ?thesis by (rule exI)
  qed
qed

lemma group_is_tied:
  assumes eq: "g @ X = T @ R" and T: "T \<noteq> []" and ne: "g \<noteq> []" and g: "same_key f g"
    and gX: "above f g X" and sT: "same_key f T" and TR: "above f T R"
  shows "T = g \<and> R = X"
proof -
  from group_in_prefix [OF eq T g TR] obtain T2 where T2: "T = g @ T2"
    by blast
  with eq have X: "X = T2 @ R" by simp
  have "T2 = []"
  proof (rule ccontr)
    assume "T2 \<noteq> []"
    then obtain y where y: "y \<in> set T2" by (cases T2) auto
    from ne obtain x where x: "x \<in> set g" by (cases g) auto
    from x y T2 have "x \<in> set T" "y \<in> set T" by auto
    from same_keyD [OF sT this] have "f x = f y" .
    moreover from y X have "y \<in> set X" by simp
    from aboveD [OF gX x this] have "f y < f x" .
    ultimately show False by simp
  qed
  with T2 X show ?thesis by simp
qed

lemma award_complete:
  "chain f gs \<Longrightarrow> concat gs = W @ T @ rest \<Longrightarrow> settled f need W T rest \<Longrightarrow>
   award gs need ws = (ws @ W, T, need - int (length W))"
proof (induction gs arbitrary: need ws W)
  case Nil
  then show ?case by simp
next
  case (Cons g gs)
  from Cons.prems(1) have g: "g \<noteq> []" "same_key f g" "above f g (concat gs)" "chain f gs"
    by simp_all
  from Cons.prems(2) have eq: "g @ concat gs = W @ T @ rest"
    by simp
  from Cons.prems(3) have s: "above f W (T @ rest)" "same_key f T" "above f T rest"
    "int (length W) \<le> max 0 need"
    "T \<noteq> [] \<longrightarrow> need - int (length W) < int (length T) \<and> (need \<noteq> 0 \<longrightarrow> int (length W) \<noteq> need)"
    "T = [] \<longrightarrow> rest = [] \<or> (int (length W) = need \<and> W \<noteq> [])"
    by (simp_all add: settled_def)
  show ?case
  proof (cases "W = []")
    case True
    have T: "T \<noteq> []"
    proof
      assume "T = []"
      with s(6) True have "rest = []" by simp
      with \<open>T = []\<close> True eq g(1) show False by simp
    qed
    from True eq have "g @ concat gs = T @ rest" by simp
    from group_is_tied [OF this T g(1) g(2) g(3) s(2) s(3)] have "T = g" by simp
    with s(5) T True have "\<not> int (length g) \<le> need" by simp
    with \<open>T = g\<close> True show ?thesis by simp
  next
    case False
    from group_in_prefix [OF eq False g(2) s(1)] obtain W2 where W2: "W = g @ W2"
      by blast
    with eq have rest: "concat gs = W2 @ T @ rest" by simp
    from g(1) have lg: "1 \<le> int (length g)" by (cases g) simp_all
    from W2 s(4) have "int (length g) + int (length W2) \<le> max 0 need" by simp
    with lg W2 have fits: "int (length g) \<le> need" and le: "int (length W) \<le> need"
      by simp_all
    show ?thesis
    proof (cases "need - int (length g) = 0")
      case True
      with le W2 have "W2 = []" by simp
      with W2 True lg s(5) have "T = []" by auto
      with fits True W2 \<open>W2 = []\<close> show ?thesis
        by (simp add: Let_def)
    next
      case nz: False
      from s(1) W2 have "above f W2 (T @ rest)"
        by (simp add: above_simps)
      then have "settled f (need - int (length g)) W2 T rest"
        unfolding settled_def
      proof (intro conjI impI)
        show "same_key f T" "above f T rest" by fact+
        show "int (length W2) \<le> max 0 (need - int (length g))"
          using le W2 by simp
        { assume "T \<noteq> []"
          with s(5) W2 lg fits
          show "need - int (length g) - int (length W2) < int (length T)"
            and "need - int (length g) \<noteq> 0 \<Longrightarrow> int (length W2) \<noteq> need - int (length g)"
            by auto }
        { assume "T = []"
          with s(6) W2 nz
          show "rest = [] \<or> (int (length W2) = need - int (length g) \<and> W2 \<noteq> [])"
            by auto }
      qed
      from Cons.IH [OF g(4) rest this, of "ws @ g"] fits nz W2 show ?thesis
        by (simp add: Let_def)
    qed
  qed
qed

lemma determine_results_iff:
  "(winners (determine_results a d m) = W \<and> tied (determine_results a d m) = T) =
   (\<exists>rest. filter_bids (sorted_reverse (bid_key d m) (bids a)) = W @ T @ rest
      \<and> settled (bid_key d m) (quantity (item a)) W T rest)"
proof -
  let ?f = "bid_key d m"
  let ?ab = "filter_bids (sorted_reverse ?f (bids a))"
  let ?q = "quantity (item a)"
  have ch: "chain ?f (groupby ?f ?ab)"
    by (rule chain_groupby) (rule all_bids_sorted)
  show ?thesis
  proof
    assume wt: "winners (determine_results a d m) = W \<and> tied (determine_results a d m) = T"
    obtain W0 T0 n where aw: "award (groupby ?f ?ab) ?q [] = (W0, T0, n)"
      by (cases "award (groupby ?f ?ab) ?q []") auto
    from determine_results_award [OF aw] wt have eq: "W0 = W" "T0 = T"
      by simp_all
    from award_sound [OF ch aw] obtain ws' rest where
      "W0 = [] @ ws'" "concat (groupby ?f ?ab) = ws' @ T0 @ rest" "settled ?f ?q ws' T0 rest"
      by blast
    with eq have "?ab = W @ T @ rest \<and> settled ?f ?q W T rest"
      by (simp add: concat_groupby)
    then show "\<exists>rest. ?ab = W @ T @ rest \<and> settled ?f ?q W T rest" ..
  next
    assume "\<exists>rest. ?ab = W @ T @ rest \<and> settled ?f ?q W T rest"
    then obtain rest where ab: "?ab = W @ T @ rest" and s: "settled ?f ?q W T rest"
      by blast
    from ab have "concat (groupby ?f ?ab) = W @ T @ rest"
      by (simp only: concat_groupby)
    from award_complete [OF ch this s, of "[]"]
    have "award (groupby ?f ?ab) ?q [] = (W, T, ?q - int (length W))"
      by simp
    from determine_results_award [OF this]
    show "winners (determine_results a d m) = W \<and> tied (determine_results a d m) = T"
      by simp
  qed
qed

lemma rolled_is_need:
  "rolled (determine_results a d m) = quantity (item a) - int (length (winners (determine_results a d m)))"
proof -
  let ?f = "bid_key d m"
  let ?ab = "filter_bids (sorted_reverse ?f (bids a))"
  let ?q = "quantity (item a)"
  have ch: "chain ?f (groupby ?f ?ab)"
    by (rule chain_groupby) (rule all_bids_sorted)
  obtain W0 T0 n where aw: "award (groupby ?f ?ab) ?q [] = (W0, T0, n)"
    by (cases "award (groupby ?f ?ab) ?q []") auto
  from award_sound [OF ch aw] obtain ws' where "W0 = [] @ ws'" "n = ?q - int (length ws')"
    by blast
  with determine_results_award [OF aw] show ?thesis
    by simp
qed

lemma filter_bids_from_complete:
  "b \<in> set xs \<Longrightarrow> pair_of b \<notin> seen \<Longrightarrow> pair_of b \<in> pair_of ` set (filter_bids_from seen xs)"
proof (induction xs arbitrary: seen)
  case Nil
  then show ?case by simp
next
  case (Cons x xs)
  show ?case
  proof (cases "pair_of x \<in> seen")
    case True
    with Cons.prems have "b \<in> set xs" by auto
    from Cons.IH [OF this Cons.prems(2)] True show ?thesis
      by (simp add: pair_of_def)
  next
    case False
    show ?thesis
    proof (cases "pair_of b = pair_of x")
      case True
      with False show ?thesis
        by (simp add: pair_of_def Let_def)
    next
      case ne: False
      with Cons.prems have "b \<in> set xs" and "pair_of b \<notin> insert (pair_of x) seen"
        by auto
      from Cons.IH [OF this] False show ?thesis
        by (simp add: pair_of_def Let_def)
    qed
  qed
qed

lemma filter_bids_from_position:
  "b \<in> set (filter_bids_from seen xs) \<Longrightarrow>
   \<exists>pre post. xs = pre @ b # post \<and> pair_of b \<notin> pair_of ` set pre"
proof (induction xs arbitrary: seen)
  case Nil
  then show ?case by simp
next
  case (Cons x xs)
  show ?case
  proof (cases "b = x \<and> pair_of x \<notin> seen")
    case True
    then have "x # xs = [] @ b # xs \<and> pair_of b \<notin> pair_of ` set []"
      by simp
    then show ?thesis by blast
  next
    case False
    with Cons.prems obtain seen' where in': "b \<in> set (filter_bids_from seen' xs)"
      and seen': "pair_of x \<in> seen'"
      by (auto simp: Let_def pair_of_def split: if_splits)
    from filter_bids_from_unseen [OF in'] seen' have ne: "pair_of b \<noteq> pair_of x"
      by auto
    from Cons.IH [OF in'] obtain pre post where "xs = pre @ b # post"
      and "pair_of b \<notin> pair_of ` set pre"
      by blast
    with ne have "x # xs = (x # pre) @ b # post \<and> pair_of b \<notin> pair_of ` set (x # pre)"
      by simp
    then show ?thesis by blast
  qed
qed

lemma filter_bids_from_subseq: "subseq (filter_bids_from seen xs) xs"
  by (induction xs arbitrary: seen) (auto simp: Let_def intro: list_emb_Cons)

lemma sorted_reverse_mset: "mset (sorted_reverse f xs) = mset xs"
  by (simp add: sorted_reverse_def)

lemma tie_auction_facts:
  "''alice'' \<noteq> ''bob'' \<and> (10 :: int) \<le> 50
      \<and> current (dkp_get (balances [(''alice'', 200), (''bob'', 200)]) ''alice'')
          = current (dkp_get (balances [(''alice'', 200), (''bob'', 200)]) ''bob'')
      \<and> quantity (item tie_auction) = 1 \<and> distinct (bids tie_auction)
      \<and> set (bids tie_auction) = {\<lparr>bidder = ''alice'', rank = Raider, bid = 50, bid_id = 0\<rparr>,
                          \<lparr>bidder = ''bob'', rank = Raider, bid = 50, bid_id = 0\<rparr>}"
  by (simp add: tie_auction_def demo_auction_def sword_def mk_bid_def balances_def dkp_get_def)

lemma four_bids_auction_facts:
  "distinct [''ann'', ''ben'', ''cat'', ''dan'']
      \<and> current (dkp_get (balances [(''cat'', 100), (''dan'', 100)]) ''cat'')
          = current (dkp_get (balances [(''cat'', 100), (''dan'', 100)]) ''dan'')
      \<and> quantity (item four_bids_auction) = 3 \<and> distinct (bids four_bids_auction)
      \<and> set (bids four_bids_auction) = {\<lparr>bidder = ''ann'', rank = Alt, bid = 100, bid_id = 0\<rparr>,
                          \<lparr>bidder = ''ben'', rank = Alt, bid = 90, bid_id = 0\<rparr>,
                          \<lparr>bidder = ''cat'', rank = Alt, bid = 80, bid_id = 0\<rparr>,
                          \<lparr>bidder = ''dan'', rank = Alt, bid = 80, bid_id = 0\<rparr>}"
  by (simp add: four_bids_auction_def demo_auction_def sword_def mk_bid_def balances_def dkp_get_def
      insert_commute)

text \<open>
  C1 as the specification states it fails: the sort key of a bid includes the bidder's
  current balance, so of two Raiders with equal top bids for one item the one with the
  larger balance wins, and nobody is tied, whatever the iteration order of the bid set.
\<close>

theorem balance_breaks_tie_counterexample:
  "determine_results
     (demo_auction Running [mk_bid ''alice'' Raider 50, mk_bid ''bob'' Raider 50] None)
     (balances [(''alice'', 200), (''bob'', 100)]) 10
     = \<lparr>winners = [mk_bid ''alice'' Raider 50], tied = [], rolled = 0\<rparr>
   \<and> determine_results
     (demo_auction Running [mk_bid ''bob'' Raider 50, mk_bid ''alice'' Raider 50] None)
     (balances [(''alice'', 200), (''bob'', 100)]) 10
     = \<lparr>winners = [mk_bid ''alice'' Raider 50], tied = [], rolled = 0\<rparr>"
  by (simp add: eval_results demo_auction_def sword_def mk_bid_def balances_def)

text \<open>
  C1, as the code has it by design. The bids, sorted by descending key (priority, amount,
  current balance of the bidder) and de-duplicated, split in exactly one way into the
  winners, the tied bids and the remaining bids such that: every winner has a larger key
  than every tied or remaining bid (whole groups are awarded, from the highest key down);
  the winners do not exceed the quantity; the tied bids share one key, larger than that
  of every remaining bid (a group is tied in its entirety), and they are tied only while
  need is left, being more than that need; and when nothing is tied, either every bid was
  consumed or the winners have met the need (allocation stops, untied, as soon as the
  need is met). When nothing is tied, \<open>rolled\<close> is the need that the winners leave,
  and it is non-zero only when every bid was consumed. In particular, for an item of
  quantity 1 with the bids of two Raiders, of equal amount at or above the member
  threshold and with equal current balances, both bids are tied and there is no winner;
  and for quantity 3 with bids of 100, 90, 80 and 80 by four bidders of one rank, the two
  bidders of 80 having equal balances, the winners are the bids of 100 and 90 and the two
  bids of 80 are tied.
\<close>

theorem determine_results_walk:
  fixes a d m
  defines "f \<equiv> bid_key d m" and "r \<equiv> determine_results a d m" and "q \<equiv> quantity (item a)"
  shows
    "(\<forall>W T. (winners r = W \<and> tied r = T) =
        (\<exists>rest. filter_bids (sorted_reverse f (bids a)) = W @ T @ rest
           \<and> above f W (T @ rest) \<and> same_key f T \<and> above f T rest
           \<and> int (length W) \<le> max 0 q
           \<and> (T \<noteq> [] \<longrightarrow> q - int (length W) < int (length T) \<and> (q \<noteq> 0 \<longrightarrow> int (length W) \<noteq> q))
           \<and> (T = [] \<longrightarrow> rest = [] \<or> (int (length W) = q \<and> W \<noteq> []))))
     \<and> (tied r = [] \<longrightarrow>
          rolled r = q - int (length (winners r))
          \<and> (rolled r \<noteq> 0 \<longrightarrow> winners r = filter_bids (sorted_reverse f (bids a))))
     \<and> (na \<noteq> nb \<and> m \<le> amount \<and> current (dkp_get d na) = current (dkp_get d nb) \<and> q = 1
          \<and> distinct (bids a)
          \<and> set (bids a) = {\<lparr>bidder = na, rank = Raider, bid = amount, bid_id = ia\<rparr>,
                              \<lparr>bidder = nb, rank = Raider, bid = amount, bid_id = ib\<rparr>}
        \<longrightarrow> winners r = [] \<and> tied r = bids a)
     \<and> (distinct [ka, kb, kc, kd] \<and> current (dkp_get d kc) = current (dkp_get d kd) \<and> q = 3
          \<and> distinct (bids a)
          \<and> set (bids a) = {\<lparr>bidder = ka, rank = rk, bid = 100, bid_id = ja\<rparr>,
                              \<lparr>bidder = kb, rank = rk, bid = 90, bid_id = jb\<rparr>,
                              \<lparr>bidder = kc, rank = rk, bid = 80, bid_id = jc\<rparr>,
                              \<lparr>bidder = kd, rank = rk, bid = 80, bid_id = jd\<rparr>}
        \<longrightarrow> winners r = [\<lparr>bidder = ka, rank = rk, bid = 100, bid_id = ja\<rparr>,
                         \<lparr>bidder = kb, rank = rk, bid = 90, bid_id = jb\<rparr>]
            \<and> set (tied r) = {\<lparr>bidder = kc, rank = rk, bid = 80, bid_id = jc\<rparr>,
                               \<lparr>bidder = kd, rank = rk, bid = 80, bid_id = jd\<rparr>}
            \<and> length (tied r) = 2)"
proof (intro conjI)
  show "\<forall>W T. (winners r = W \<and> tied r = T) =
        (\<exists>rest. filter_bids (sorted_reverse f (bids a)) = W @ T @ rest
           \<and> above f W (T @ rest) \<and> same_key f T \<and> above f T rest
           \<and> int (length W) \<le> max 0 q
           \<and> (T \<noteq> [] \<longrightarrow> q - int (length W) < int (length T) \<and> (q \<noteq> 0 \<longrightarrow> int (length W) \<noteq> q))
           \<and> (T = [] \<longrightarrow> rest = [] \<or> (int (length W) = q \<and> W \<noteq> [])))"
    unfolding f_def r_def q_def
    by (intro allI) (rule determine_results_iff [unfolded settled_def])
next
  show "tied r = [] \<longrightarrow>
          rolled r = q - int (length (winners r))
          \<and> (rolled r \<noteq> 0 \<longrightarrow> winners r = filter_bids (sorted_reverse f (bids a)))"
  proof (intro impI conjI)
    show need: "rolled r = q - int (length (winners r))"
      unfolding r_def q_def by (rule rolled_is_need)
    assume t: "tied r = []" and nz: "rolled r \<noteq> 0"
    have "winners r = winners r \<and> tied r = tied r" by simp
    then have "\<exists>rest. filter_bids (sorted_reverse f (bids a)) = winners r @ tied r @ rest
        \<and> settled f q (winners r) (tied r) rest"
      unfolding f_def r_def q_def by (simp only: determine_results_iff)
    then obtain rest where ab: "filter_bids (sorted_reverse f (bids a)) = winners r @ tied r @ rest"
      and s: "settled f q (winners r) (tied r) rest"
      by blast
    from s t have "rest = [] \<or> int (length (winners r)) = q"
      unfolding settled_def by blast
    with need nz have "rest = []" by auto
    with ab t show "winners r = filter_bids (sorted_reverse f (bids a))"
      by simp
  qed
next
  show "na \<noteq> nb \<and> m \<le> amount \<and> current (dkp_get d na) = current (dkp_get d nb) \<and> q = 1
          \<and> distinct (bids a)
          \<and> set (bids a) = {\<lparr>bidder = na, rank = Raider, bid = amount, bid_id = ia\<rparr>,
                              \<lparr>bidder = nb, rank = Raider, bid = amount, bid_id = ib\<rparr>}
        \<longrightarrow> winners r = [] \<and> tied r = bids a"
  proof
    assume h: "na \<noteq> nb \<and> m \<le> amount \<and> current (dkp_get d na) = current (dkp_get d nb) \<and> q = 1
          \<and> distinct (bids a)
          \<and> set (bids a) = {\<lparr>bidder = na, rank = Raider, bid = amount, bid_id = ia\<rparr>,
                              \<lparr>bidder = nb, rank = Raider, bid = amount, bid_id = ib\<rparr>}"
    then have h1: "na \<noteq> nb" and h2: "m \<le> amount"
      and h3: "current (dkp_get d na) = current (dkp_get d nb)"
      and h4: "quantity (item a) = 1" and h5: "distinct (bids a)"
      and h6: "set (bids a) = {\<lparr>bidder = na, rank = Raider, bid = amount, bid_id = ia\<rparr>,
                              \<lparr>bidder = nb, rank = Raider, bid = amount, bid_id = ib\<rparr>}"
      unfolding q_def by blast+
    show "winners r = [] \<and> tied r = bids a"
      unfolding r_def by (rule scenario_tie_of_two [OF h1 h2 h3 h4 h5 h6])
  qed
next
  show "distinct [ka, kb, kc, kd] \<and> current (dkp_get d kc) = current (dkp_get d kd) \<and> q = 3
          \<and> distinct (bids a)
          \<and> set (bids a) = {\<lparr>bidder = ka, rank = rk, bid = 100, bid_id = ja\<rparr>,
                              \<lparr>bidder = kb, rank = rk, bid = 90, bid_id = jb\<rparr>,
                              \<lparr>bidder = kc, rank = rk, bid = 80, bid_id = jc\<rparr>,
                              \<lparr>bidder = kd, rank = rk, bid = 80, bid_id = jd\<rparr>}
        \<longrightarrow> winners r = [\<lparr>bidder = ka, rank = rk, bid = 100, bid_id = ja\<rparr>,
                         \<lparr>bidder = kb, rank = rk, bid = 90, bid_id = jb\<rparr>]
            \<and> set (tied r) = {\<lparr>bidder = kc, rank = rk, bid = 80, bid_id = jc\<rparr>,
                               \<lparr>bidder = kd, rank = rk, bid = 80, bid_id = jd\<rparr>}
            \<and> length (tied r) = 2"
  proof
    assume h: "distinct [ka, kb, kc, kd] \<and> current (dkp_get d kc) = current (dkp_get d kd) \<and> q = 3
          \<and> distinct (bids a)
          \<and> set (bids a) = {\<lparr>bidder = ka, rank = rk, bid = 100, bid_id = ja\<rparr>,
                              \<lparr>bidder = kb, rank = rk, bid = 90, bid_id = jb\<rparr>,
                              \<lparr>bidder = kc, rank = rk, bid = 80, bid_id = jc\<rparr>,
                              \<lparr>bidder = kd, rank = rk, bid = 80, bid_id = jd\<rparr>}"
    then have g1: "distinct [ka, kb, kc, kd]"
      and g2: "current (dkp_get d kc) = current (dkp_get d kd)"
      and g3: "quantity (item a) = 3" and g4: "distinct (bids a)"
      and g5: "set (bids a) = {\<lparr>bidder = ka, rank = rk, bid = 100, bid_id = ja\<rparr>,
                              \<lparr>bidder = kb, rank = rk, bid = 90, bid_id = jb\<rparr>,
                              \<lparr>bidder = kc, rank = rk, bid = 80, bid_id = jc\<rparr>,
                              \<lparr>bidder = kd, rank = rk, bid = 80, bid_id = jd\<rparr>}"
      unfolding q_def by blast+
    show "winners r = [\<lparr>bidder = ka, rank = rk, bid = 100, bid_id = ja\<rparr>,
                         \<lparr>bidder = kb, rank = rk, bid = 90, bid_id = jb\<rparr>]
            \<and> set (tied r) = {\<lparr>bidder = kc, rank = rk, bid = 80, bid_id = jc\<rparr>,
                               \<lparr>bidder = kd, rank = rk, bid = 80, bid_id = jd\<rparr>}
            \<and> length (tied r) = 2"
      unfolding r_def by (rule scenario_two_winners_then_tie [OF g1 g2 g3 g4 g5])
  qed
qed

theorem determine_results_walk_witness:
  "(''alice'' \<noteq> ''bob'' \<and> (10 :: int) \<le> 50
      \<and> current (dkp_get (balances [(''alice'', 200), (''bob'', 200)]) ''alice'')
          = current (dkp_get (balances [(''alice'', 200), (''bob'', 200)]) ''bob'')
      \<and> quantity (item tie_auction) = 1 \<and> distinct (bids tie_auction)
      \<and> set (bids tie_auction) = {\<lparr>bidder = ''alice'', rank = Raider, bid = 50, bid_id = 0\<rparr>,
                          \<lparr>bidder = ''bob'', rank = Raider, bid = 50, bid_id = 0\<rparr>})
   \<and> (winners (determine_results tie_auction (balances [(''alice'', 200), (''bob'', 200)]) 10) = []
      \<and> tied (determine_results tie_auction (balances [(''alice'', 200), (''bob'', 200)]) 10)
          = bids tie_auction)
   \<and> (distinct [''ann'', ''ben'', ''cat'', ''dan'']
      \<and> current (dkp_get (balances [(''cat'', 100), (''dan'', 100)]) ''cat'')
          = current (dkp_get (balances [(''cat'', 100), (''dan'', 100)]) ''dan'')
      \<and> quantity (item four_bids_auction) = 3 \<and> distinct (bids four_bids_auction)
      \<and> set (bids four_bids_auction) = {\<lparr>bidder = ''ann'', rank = Alt, bid = 100, bid_id = 0\<rparr>,
                          \<lparr>bidder = ''ben'', rank = Alt, bid = 90, bid_id = 0\<rparr>,
                          \<lparr>bidder = ''cat'', rank = Alt, bid = 80, bid_id = 0\<rparr>,
                          \<lparr>bidder = ''dan'', rank = Alt, bid = 80, bid_id = 0\<rparr>})
   \<and> (winners (determine_results four_bids_auction (balances [(''cat'', 100), (''dan'', 100)]) 10)
          = [\<lparr>bidder = ''ann'', rank = Alt, bid = 100, bid_id = 0\<rparr>,
             \<lparr>bidder = ''ben'', rank = Alt, bid = 90, bid_id = 0\<rparr>]
      \<and> set (tied (determine_results four_bids_auction (balances [(''cat'', 100), (''dan'', 100)]) 10))
          = {\<lparr>bidder = ''cat'', rank = Alt, bid = 80, bid_id = 0\<rparr>,
             \<lparr>bidder = ''dan'', rank = Alt, bid = 80, bid_id = 0\<rparr>}
      \<and> length (tied (determine_results four_bids_auction (balances [(''cat'', 100), (''dan'', 100)]) 10)) = 2)"
proof (intro conjI [OF tie_auction_facts] conjI [OF _ conjI [OF four_bids_auction_facts]])
  show "winners (determine_results tie_auction (balances [(''alice'', 200), (''bob'', 200)]) 10) = []
      \<and> tied (determine_results tie_auction (balances [(''alice'', 200), (''bob'', 200)]) 10)
          = bids tie_auction"
    by (rule determine_results_walk [where a = tie_auction and m = 10 and amount = 50,
          THEN conjunct2, THEN conjunct2, THEN conjunct1, THEN mp, OF tie_auction_facts])
  show "winners (determine_results four_bids_auction (balances [(''cat'', 100), (''dan'', 100)]) 10)
          = [\<lparr>bidder = ''ann'', rank = Alt, bid = 100, bid_id = 0\<rparr>,
             \<lparr>bidder = ''ben'', rank = Alt, bid = 90, bid_id = 0\<rparr>]
      \<and> set (tied (determine_results four_bids_auction (balances [(''cat'', 100), (''dan'', 100)]) 10))
          = {\<lparr>bidder = ''cat'', rank = Alt, bid = 80, bid_id = 0\<rparr>,
             \<lparr>bidder = ''dan'', rank = Alt, bid = 80, bid_id = 0\<rparr>}
      \<and> length (tied (determine_results four_bids_auction (balances [(''cat'', 100), (''dan'', 100)]) 10)) = 2"
    by (rule determine_results_walk [where a = four_bids_auction and m = 10,
          THEN conjunct2, THEN conjunct2, THEN conjunct2, THEN mp, OF four_bids_auction_facts])
qed

text \<open>
  C2 as the specification states it fails: after two validated calls of \<open>bid\<close> by the
  same bidder with the same id, with 100 and then 50, the bid of 100 made first is the
  winner; the bid set keeps both bids and records no order of submission.
\<close>

theorem earlier_bid_counted_counterexample:
  "fst first_bid =
     [\<lparr>channel = ''c1'', message = Str ''Bid Accepted!'', hidden = True\<rparr>,
      \<lparr>channel = ''c1'', message = HasBid ''alice'' 100, hidden = False\<rparr>]
   \<and> fst second_bid =
     [\<lparr>channel = ''c1'', message = Str ''Bid Accepted!'', hidden = True\<rparr>,
      \<lparr>channel = ''c1'', message = HasBid ''alice'' 50, hidden = False\<rparr>]
   \<and> auction_in (snd second_bid) ''c1'' =
       Some ((demo_auction Running [mk_bid ''alice'' Raider 50, mk_bid ''alice'' Raider 100] None)
               \<lparr>last_bid := Some (seconds 20)\<rparr>)
   \<and> determine_results
       ((demo_auction Running [mk_bid ''alice'' Raider 50, mk_bid ''alice'' Raider 100] None)
               \<lparr>last_bid := Some (seconds 20)\<rparr>)
       (dkp (snd second_bid)) (member_limit (limits (snd second_bid)))
     = \<lparr>winners = [mk_bid ''alice'' Raider 100], tied = [], rolled = 0\<rparr>"
  by (simp add: first_bid_eval second_bid_eval demo_auction_in)
    (simp add: eval_results demo_state_def demo_auction_def demo_limits_def sword_def mk_bid_def
      balances_def)

text \<open>
  C2, as the code has it: \<open>determine_results\<close> sorts the bid set by descending key
  (a permutation of the set, whatever the order of submission) and keeps of every
  (bidder, id) pair exactly the first bid in that order: the de-duplicated list is the
  sorted list with bids left out, it has one bid for every pair of the bid set and no two
  bids of one pair, and no bid of the same pair precedes a kept bid in the sorted list.
  The winners followed by the tied bids are a prefix of the de-duplicated list, the one
  that \<open>settled\<close> singles out for the quantity of the item. So a counted bid has
  the largest sort key among the bids of its pair (among bids of one rank, the highest
  amount): an earlier higher amount is counted and a later lower one is not.
\<close>

theorem dedup_keeps_highest_key:
  fixes a d m
  defines "f \<equiv> bid_key d m" and "r \<equiv> determine_results a d m"
    and "s \<equiv> sorted_reverse (bid_key d m) (bids a)"
  shows "mset s = mset (bids a) \<and> sorted_wrt (\<lambda>x y. f y \<le> f x) s
       \<and> subseq (filter_bids s) s
       \<and> distinct (map pair_of (filter_bids s))
       \<and> pair_of ` set (filter_bids s) = pair_of ` set (bids a)
       \<and> (\<forall>b\<in>set (filter_bids s). \<exists>pre post. s = pre @ b # post \<and> pair_of b \<notin> pair_of ` set pre)
       \<and> (\<exists>rest. filter_bids s = winners r @ tied r @ rest)
       \<and> (\<forall>W T. (winners r = W \<and> tied r = T) =
             (\<exists>rest. filter_bids s = W @ T @ rest \<and> settled f (quantity (item a)) W T rest))
       \<and> distinct (map pair_of (winners r @ tied r))
       \<and> (\<forall>b\<in>set (winners r @ tied r). b \<in> set (bids a)
            \<and> (\<forall>b'\<in>set (bids a). pair_of b' = pair_of b \<longrightarrow>
                  f b' \<le> f b \<and> (rank b' = rank b \<longrightarrow> bid b' \<le> bid b)))"
proof (intro conjI ballI impI allI)
  show "mset s = mset (bids a)"
    unfolding s_def by (rule sorted_reverse_mset)
  show "sorted_wrt (\<lambda>x y. f y \<le> f x) s"
    unfolding s_def f_def by (rule sorted_reverse_desc)
  show "subseq (filter_bids s) s"
    unfolding filter_bids_def by (rule filter_bids_from_subseq)
  show "distinct (map pair_of (filter_bids s))"
    unfolding filter_bids_def by (rule filter_bids_from_distinct)
  show "pair_of ` set (filter_bids s) = pair_of ` set (bids a)"
  proof
    from filter_bids_from_set [of "{}" s] show "pair_of ` set (filter_bids s) \<subseteq> pair_of ` set (bids a)"
      unfolding filter_bids_def s_def sorted_reverse_set by blast
    show "pair_of ` set (bids a) \<subseteq> pair_of ` set (filter_bids s)"
    proof
      fix p assume "p \<in> pair_of ` set (bids a)"
      then obtain b where b: "b \<in> set s" and p: "p = pair_of b"
        unfolding s_def sorted_reverse_set by blast
      from filter_bids_from_complete [OF b, of "{}"] p
      show "p \<in> pair_of ` set (filter_bids s)"
        unfolding filter_bids_def by simp
    qed
  qed
  show "\<exists>rest. filter_bids s = winners r @ tied r @ rest"
    using determine_results_shape [of d m a] unfolding s_def r_def by blast
  show "distinct (map pair_of (winners r @ tied r))"
    unfolding r_def by (rule counted_bids(1))
next
  fix W T
  show "(winners r = W \<and> tied r = T) =
      (\<exists>rest. filter_bids s = W @ T @ rest \<and> settled f (quantity (item a)) W T rest)"
    unfolding r_def s_def f_def by (rule determine_results_iff)
next
  fix b assume "b \<in> set (filter_bids s)"
  then show "\<exists>pre post. s = pre @ b # post \<and> pair_of b \<notin> pair_of ` set pre"
    unfolding filter_bids_def by (rule filter_bids_from_position)
next
  fix b assume b: "b \<in> set (winners r @ tied r)"
  then show "b \<in> set (bids a)"
    unfolding r_def by (rule counted_bids(2))
  fix b' assume b': "b' \<in> set (bids a)" and p: "pair_of b' = pair_of b"
  from b b' p show le: "f b' \<le> f b"
    unfolding r_def f_def by (rule counted_bids(3))
  assume "rank b' = rank b"
  with le p show "bid b' \<le> bid b"
    unfolding f_def by (intro same_bidder_key [of d m]) (simp_all add: pair_of_def)
qed

theorem dedup_keeps_highest_key_witness:
  "mk_bid ''alice'' Raider 100
     \<in> set (winners (determine_results two_bids_auction (balances [(''alice'', 200)]) 10)
            @ tied (determine_results two_bids_auction (balances [(''alice'', 200)]) 10))
   \<and> mk_bid ''alice'' Raider 50 \<in> set (bids two_bids_auction)
   \<and> pair_of (mk_bid ''alice'' Raider 50) = pair_of (mk_bid ''alice'' Raider 100)
   \<and> rank (mk_bid ''alice'' Raider 50) = rank (mk_bid ''alice'' Raider 100)
   \<and> bid_key (balances [(''alice'', 200)]) 10 (mk_bid ''alice'' Raider 50)
       \<le> bid_key (balances [(''alice'', 200)]) 10 (mk_bid ''alice'' Raider 100)
   \<and> bid (mk_bid ''alice'' Raider 50) \<le> bid (mk_bid ''alice'' Raider 100)"
proof -
  let ?D = "balances [(''alice'', 200)]"
  let ?hi = "mk_bid ''alice'' Raider 100"
  let ?lo = "mk_bid ''alice'' Raider 50"
  have r: "determine_results two_bids_auction ?D 10
      = \<lparr>winners = [?hi], tied = [], rolled = 0\<rparr>"
    by (simp add: eval_results two_bids_auction_def demo_auction_def sword_def mk_bid_def
        balances_def)
  have counted: "?hi \<in> set (winners (determine_results two_bids_auction ?D 10)
      @ tied (determine_results two_bids_auction ?D 10))"
    by (simp add: r)
  have h1: "?lo \<in> set (bids two_bids_auction)"
    by (simp add: two_bids_auction_def demo_auction_def)
  have h2: "pair_of ?lo = pair_of ?hi"
    by (simp add: mk_bid_def pair_of_def)
  have h3: "rank ?lo = rank ?hi"
    by (simp add: mk_bid_def)
  note T = dedup_keeps_highest_key [where a = two_bids_auction and d = ?D and m = 10,
      THEN conjunct2, THEN conjunct2, THEN conjunct2, THEN conjunct2, THEN conjunct2,
      THEN conjunct2, THEN conjunct2, THEN conjunct2, THEN conjunct2,
      THEN bspec, OF counted, THEN conjunct2, THEN bspec, OF h1, THEN mp, OF h2]
  from T have c1: "bid_key ?D 10 ?lo \<le> bid_key ?D 10 ?hi"
    by (rule conjunct1)
  from T [THEN conjunct2] h3 have c2: "bid ?lo \<le> bid ?hi"
    by (rule mp)
  show ?thesis
    by (intro conjI counted h1 h2 h3 c1 c2)
qed

end
